theory Spec2Isabelle
  imports Main "HOL-Library.AList"
begin

section \<open>Data model\<close>

text \<open>
  The development follows \<^verbatim>\<open>src/queue/jobQueue.ts\<close> (class \<open>JobQueue\<close>),
  \<^verbatim>\<open>src/browser/SessionPool.ts\<close> (class \<open>SessionPool\<close>),
  \<^verbatim>\<open>MeetingSession\<close>, \<^verbatim>\<open>RecordingHandler\<close> and the job processor and the
  leave route of \<^verbatim>\<open>src/server.ts\<close>.

  A job id is the string that \<open>uuidv4()\<close> returns; a \<open>Date\<close> is its number of
  milliseconds. An object reference is the index of the object in the list that holds all
  objects of its class: the queue is append-only, so the reference of a job is its position
  in \<open>queue\<close>. A JavaScript \<open>Map\<close> is an association list in insertion order with
  one entry per key (\<open>AList.update\<close> is \<open>Map.set\<close>, \<open>AList.delete\<close> is
  \<open>Map.delete\<close>, \<open>length\<close> is \<open>size\<close>).
\<close>

type_synonym jobid = string
type_synonym time = int

datatype job_status = Queued | Processing | InMeeting | Completed | Failed

record MeetingJob =
  job_id :: jobid
  meetingUrl :: string
  startRecording :: bool
  scheduledTime :: "time option"
  status :: job_status
  error :: "string option"
  createdAt :: time
  startedAt :: "time option"
  completedAt :: "time option"

text \<open>A \<open>MeetingSession\<close> with the flag of its \<open>RecordingHandler\<close>.\<close>

record MeetingSession =
  isActive :: bool
  isRecording :: bool

text \<open>
  A timer made by \<open>setTimeout\<close>: the job id its callback closes over, its delay, and
  whether it is still pending in the runtime.
\<close>

datatype timeout_state = Pending | Fired | Cleared

record Timeout =
  timer_job :: jobid
  delay :: int
  timer_state :: timeout_state

text \<open>
  The job processor of \<open>server.ts\<close> is an async function. Between two suspension points
  it runs without interruption; \<open>driver_pc\<close> names the suspension point at which one
  run of it waits.
\<close>

datatype driver_pc =
    D_AcqRejected string
  | D_AcqResolved "nat option"
  | D_Creating
  | D_Joining nat
  | D_Saving nat
  | D_Stabilizing nat
  | D_Recording nat bool
  | D_Throwing string
  | D_Cleanup string
  | D_Released string
  | D_Done
  | D_Failed

text \<open>The suspension points of one request to \<open>POST /api/leave-meeting/:jobId\<close>.\<close>

datatype leave_pc =
    L_Stopping jobid nat
  | L_Leaving jobid bool
  | L_Cleanup jobid
  | L_Released jobid
  | L_Done

text \<open>How an awaited promise settles.\<close>

datatype await_result = Resolve bool | Reject string

text \<open>
  The state of the server: the configuration value \<open>config.maxConcurrentSessions\<close>
  (its declaration is not part of the sources, so it is a parameter), the fields of the
  \<open>JobQueue\<close>, the timers of the runtime, the fields of the \<open>SessionPool\<close>, all
  session objects, and the runs of the job processor and of the leave route.
\<close>

record server =
  maxConcurrentSessions :: nat
  queue :: "MeetingJob list"
  activeJobs :: "(jobid \<times> nat) list"
  processCallback :: bool
  scheduledTimers :: "(jobid \<times> nat) list"
  timeouts :: "Timeout list"
  browser :: bool
  activeSessions :: "(jobid \<times> nat) list"
  sessions :: "MeetingSession list"
  drivers :: "(nat \<times> driver_pc) list"
  leaves :: "leave_pc list"

section \<open>SessionPool\<close>

text \<open>
  \<open>acquireSession\<close> up to its first suspension point: the promise is rejected (pool not
  initialised), resolved with the session already bound to the job, resolved with \<open>null\<close>
  (limit reached), or the function waits in \<open>MeetingSession.create\<close>. Nothing is written.
\<close>

definition acquireSession_check :: "jobid \<Rightarrow> server \<Rightarrow> driver_pc" where
  "acquireSession_check jobId s =
     (if \<not> browser s then D_AcqRejected ''Session pool not initialized''
      else case map_of (activeSessions s) jobId of
             Some r \<Rightarrow> D_AcqResolved (Some r)
           | None \<Rightarrow>
               if maxConcurrentSessions s \<le> length (activeSessions s) then D_AcqResolved None
               else D_Creating)"

text \<open>
  \<open>acquireSession\<close> after \<open>MeetingSession.create\<close> has resolved: the new session is
  bound to the job id. The result is the reference of the session and the new state.
\<close>

definition acquireSession_bind :: "jobid \<Rightarrow> server \<Rightarrow> nat \<times> server" where
  "acquireSession_bind jobId s =
     (let r = length (sessions s)
      in (r, s\<lparr>sessions := sessions s @ [\<lparr>isActive = True, isRecording = False\<rparr>],
                activeSessions := AList.update jobId r (activeSessions s)\<rparr>))"

text \<open>
  \<open>MeetingSession.cleanup\<close> up to its first suspension point: an active session is marked
  inactive.
\<close>

definition cleanup_begin :: "nat \<Rightarrow> server \<Rightarrow> server" where
  "cleanup_begin r s =
     (if isActive (sessions s ! r)
      then s\<lparr>sessions := (sessions s)[r := (sessions s ! r)\<lparr>isActive := False\<rparr>]\<rparr>
      else s)"

text \<open>
  \<open>releaseSession\<close> up to its first suspension point. The result says whether the
  function waits for a cleanup (\<open>True\<close>) or has returned because no session is bound.
\<close>

definition releaseSession_begin :: "jobid \<Rightarrow> server \<Rightarrow> bool \<times> server" where
  "releaseSession_begin jobId s =
     (case map_of (activeSessions s) jobId of
        None \<Rightarrow> (False, s)
      | Some r \<Rightarrow> (True, cleanup_begin r s))"

text \<open>\<open>releaseSession\<close> after the cleanup: the binding is deleted.\<close>

definition releaseSession_finish :: "jobid \<Rightarrow> server \<Rightarrow> server" where
  "releaseSession_finish jobId s = s\<lparr>activeSessions := AList.delete jobId (activeSessions s)\<rparr>"

text \<open>
  Modelled from the spec: \<open>SessionPool.saveSessionFromContext\<close>, which the job processor
  awaits after a successful join, is not declared in \<open>SessionPool.ts\<close>. The spec names it
  as the \<open>save(state)\<close> call of the credential and session store, made after a successful
  join to persist the freshly established session state, and does not specify the store.
  It is taken as a call that writes nothing to the queue or to the pool and that either
  completes or fails with a message; the result is the error, if there is one. A failure
  also stands for the sources as they are, where the call of the undeclared method throws.
\<close>

definition saveSessionFromContext :: "await_result \<Rightarrow> string option" where
  "saveSessionFromContext out = (case out of Resolve b \<Rightarrow> None | Reject msg \<Rightarrow> Some msg)"

section \<open>JobQueue\<close>

definition isReady :: "time \<Rightarrow> MeetingJob \<Rightarrow> bool" where
  "isReady now job \<longleftrightarrow>
     status job = Queued \<and> (case scheduledTime job of None \<Rightarrow> True | Some t \<Rightarrow> t \<le> now)"

definition isPendingScheduled :: "time \<Rightarrow> MeetingJob \<Rightarrow> bool" where
  "isPendingScheduled now job \<longleftrightarrow>
     status job = Queued \<and> (case scheduledTime job of None \<Rightarrow> False | Some t \<Rightarrow> now < t)"

definition readyJobs :: "time \<Rightarrow> server \<Rightarrow> nat list" where
  "readyJobs now s = filter (\<lambda>i. isReady now (queue s ! i)) [0..<length (queue s)]"

definition pendingScheduled :: "time \<Rightarrow> server \<Rightarrow> nat list" where
  "pendingScheduled now s =
     filter (\<lambda>i. isPendingScheduled now (queue s ! i)) [0..<length (queue s)]"

text \<open>
  \<open>processJob\<close> up to its first suspension point: the job is marked, entered in
  \<open>activeJobs\<close>, and the processor is called, which runs as far as the synchronous part of
  \<open>acquireSession\<close>.
\<close>

definition processJob :: "time \<Rightarrow> nat \<Rightarrow> server \<Rightarrow> server" where
  "processJob now i s =
     (if \<not> processCallback s then s
      else
        let job = queue s ! i;
            s1 = s\<lparr>queue := (queue s)[i := job\<lparr>status := Processing, startedAt := Some now\<rparr>],
                   activeJobs := AList.update (job_id job) i (activeJobs s)\<rparr>
        in s1\<lparr>drivers := drivers s1 @ [(i, acquireSession_check (job_id job) s1)]\<rparr>)"

text \<open>The loop of \<open>processNext\<close> over the ready jobs, with its \<open>break\<close>.\<close>

fun dispatch :: "time \<Rightarrow> nat list \<Rightarrow> server \<Rightarrow> server" where
  "dispatch now [] s = s"
| "dispatch now (i # rest) s =
     (if maxConcurrentSessions s \<le> length (activeJobs s) then s
      else dispatch now rest (processJob now i s))"

text \<open>The loop of \<open>scheduleUpcomingJobs\<close>, with its \<open>continue\<close>.\<close>

fun scheduleTimers :: "time \<Rightarrow> nat list \<Rightarrow> server \<Rightarrow> server" where
  "scheduleTimers now [] s = s"
| "scheduleTimers now (i # rest) s =
     (let job = queue s ! i
      in if map_of (scheduledTimers s) (job_id job) \<noteq> None then scheduleTimers now rest s
         else scheduleTimers now rest
                (s\<lparr>timeouts := timeouts s @
                      [\<lparr>timer_job = job_id job,
                        delay = (case scheduledTime job of Some t \<Rightarrow> t - now | None \<Rightarrow> 0),
                        timer_state = Pending\<rparr>],
                    scheduledTimers :=
                      AList.update (job_id job) (length (timeouts s)) (scheduledTimers s)\<rparr>))"

definition scheduleUpcomingJobs :: "time \<Rightarrow> server \<Rightarrow> server" where
  "scheduleUpcomingJobs now s = scheduleTimers now (pendingScheduled now s) s"

text \<open>
  \<open>processNext\<close> has no suspension point. The clock is read once for one uninterrupted
  run: every \<open>new Date()\<close> of the run is the reading \<open>now\<close>.
\<close>

definition processNext :: "time \<Rightarrow> server \<Rightarrow> server" where
  "processNext now s =
     (if \<not> processCallback s then s
      else scheduleUpcomingJobs now (dispatch now (readyJobs now s) s))"

text \<open>
  \<open>addJob\<close>; \<open>newId\<close> is what \<open>uuidv4()\<close> returns. The result is the reference of
  the new job, which is the object the caller receives, and the new state.
\<close>

definition addJob ::
  "string \<Rightarrow> bool \<Rightarrow> time option \<Rightarrow> jobid \<Rightarrow> time \<Rightarrow> server \<Rightarrow> nat \<times> server" where
  "addJob url rec sched newId now s =
     (let job = \<lparr>job_id = newId, meetingUrl = url, startRecording = rec,
                 scheduledTime = sched, status = Queued, error = None,
                 createdAt = now, startedAt = None, completedAt = None\<rparr>
      in (length (queue s), processNext now (s\<lparr>queue := queue s @ [job]\<rparr>)))"

text \<open>\<open>getJob\<close>: the first job of the queue with the id, as \<open>Array.find\<close> does.\<close>

fun findJob :: "jobid \<Rightarrow> MeetingJob list \<Rightarrow> nat option" where
  "findJob jobId [] = None"
| "findJob jobId (job # rest) =
     (if job_id job = jobId then Some 0 else map_option Suc (findJob jobId rest))"

definition getJob :: "jobid \<Rightarrow> server \<Rightarrow> nat option" where
  "getJob jobId s = findJob jobId (queue s)"

definition updateJobStatus :: "jobid \<Rightarrow> job_status \<Rightarrow> server \<Rightarrow> server" where
  "updateJobStatus jobId st s =
     (case getJob jobId s of
        None \<Rightarrow> s
      | Some i \<Rightarrow> s\<lparr>queue := (queue s)[i := (queue s ! i)\<lparr>status := st\<rparr>]\<rparr>)"

text \<open>
  \<open>completeJob\<close>; the optional error is tested for truthiness, so the empty string counts
  as no error.
\<close>

definition completeJob :: "jobid \<Rightarrow> string option \<Rightarrow> time \<Rightarrow> server \<Rightarrow> server" where
  "completeJob jobId err now s =
     (case getJob jobId s of
        None \<Rightarrow> s
      | Some i \<Rightarrow>
          let job = queue s ! i;
              job1 = (if err \<noteq> None \<and> err \<noteq> Some []
                      then job\<lparr>status := Failed, error := err\<rparr>
                      else job\<lparr>status := Completed\<rparr>)
          in processNext now
               (s\<lparr>queue := (queue s)[i := job1\<lparr>completedAt := Some now\<rparr>],
                  activeJobs := AList.delete jobId (activeJobs s)\<rparr>))"

text \<open>The \<open>catch\<close> block of \<open>processJob\<close>, for the run \<open>k\<close> of the processor.\<close>

definition processJob_catch :: "nat \<Rightarrow> string \<Rightarrow> time \<Rightarrow> server \<Rightarrow> server" where
  "processJob_catch k msg now s =
     (let i = fst (drivers s ! k);
          job = queue s ! i
      in processNext now
           (s\<lparr>queue := (queue s)[i := job\<lparr>status := Failed, error := Some msg,
                                           completedAt := Some now\<rparr>],
              activeJobs := AList.delete (job_id job) (activeJobs s),
              drivers := (drivers s)[k := (i, D_Failed)]\<rparr>))"

text \<open>\<open>clearTimeout\<close> of the runtime, and \<open>clearTimers\<close>.\<close>

definition clearTimeout :: "nat \<Rightarrow> Timeout list \<Rightarrow> Timeout list" where
  "clearTimeout h ts =
     (if h < length ts \<and> timer_state (ts ! h) = Pending
      then ts[h := (ts ! h)\<lparr>timer_state := Cleared\<rparr>] else ts)"

definition clearTimers :: "server \<Rightarrow> server" where
  "clearTimers s =
     s\<lparr>timeouts := fold clearTimeout (map snd (scheduledTimers s)) (timeouts s),
       scheduledTimers := []\<rparr>"

text \<open>The callback of a timer, run by the runtime when the timer \<open>h\<close> fires.\<close>

definition timerFired :: "nat \<Rightarrow> time \<Rightarrow> server \<Rightarrow> server" where
  "timerFired h now s =
     (let t = timeouts s ! h
      in processNext now
           (s\<lparr>timeouts := (timeouts s)[h := t\<lparr>timer_state := Fired\<rparr>],
              scheduledTimers := AList.delete (timer_job t) (scheduledTimers s)\<rparr>))"

section \<open>The job processor and the leave route of the server\<close>

definition set_pc :: "nat \<Rightarrow> driver_pc \<Rightarrow> server \<Rightarrow> server" where
  "set_pc k pc s = s\<lparr>drivers := (drivers s)[k := (fst (drivers s ! k), pc)]\<rparr>"

text \<open>
  The \<open>catch\<close> block of the processor up to its suspension point: it calls
  \<open>releaseSession\<close> for the job and waits for it; the error is thrown again afterwards.
\<close>

definition inner_catch :: "nat \<Rightarrow> string \<Rightarrow> server \<Rightarrow> server" where
  "inner_catch k msg s =
     (let jobId = job_id (queue s ! fst (drivers s ! k));
          (waits, s1) = releaseSession_begin jobId s
      in set_pc k (if waits then D_Cleanup msg else D_Released msg) s1)"

text \<open>
  What \<open>RecordingHandler.startRecording\<close> returns once the page has been worked on: an
  error thrown by a step is caught and gives \<open>false\<close>, as does a missing record option;
  the flag is set only on the way to \<open>return true\<close>.
\<close>

definition startRecording_result :: "await_result \<Rightarrow> bool" where
  "startRecording_result out = (case out of Resolve b \<Rightarrow> b | Reject msg \<Rightarrow> False)"

definition startRecording_finish :: "nat \<Rightarrow> await_result \<Rightarrow> server \<Rightarrow> server" where
  "startRecording_finish r out s =
     (if startRecording_result out
      then s\<lparr>sessions := (sessions s)[r := (sessions s ! r)\<lparr>isRecording := True\<rparr>]\<rparr>
      else s)"

text \<open>
  One uninterrupted run of the processor for its run \<open>k\<close>, from the suspension point it
  waits at to the next one; \<open>out\<close> is how the awaited promise settled where that is up
  to the browser. \<open>MeetingSession.joinMeeting\<close> and \<open>startRecording\<close> throw when the
  session is no longer active. After a successful join the processor awaits
  \<open>saveSessionFromContext\<close>, inside the \<open>try\<close> block. A failed recording start is only
  logged.
\<close>

definition driver_step :: "nat \<Rightarrow> await_result \<Rightarrow> time \<Rightarrow> server \<Rightarrow> server" where
  "driver_step k out now s =
     (let i = fst (drivers s ! k);
          jobId = job_id (queue s ! i)
      in case snd (drivers s ! k) of
           D_AcqRejected msg \<Rightarrow> processJob_catch k msg now s
         | D_AcqResolved None \<Rightarrow> processJob_catch k ''No session slot available'' now s
         | D_AcqResolved (Some r) \<Rightarrow>
             set_pc k (if isActive (sessions s ! r) then D_Joining r
                       else D_Throwing ''Session is no longer active'') s
         | D_Creating \<Rightarrow>
             (case out of
                Resolve b \<Rightarrow>
                  (let (r, s1) = acquireSession_bind jobId s
                   in set_pc k (D_AcqResolved (Some r)) s1)
              | Reject msg \<Rightarrow> set_pc k (D_AcqRejected msg) s)
         | D_Joining r \<Rightarrow>
             (case out of
                Resolve joined \<Rightarrow>
                  if joined then set_pc k (D_Saving r) s
                  else inner_catch k ''Failed to join meeting'' s
              | Reject msg \<Rightarrow> inner_catch k msg s)
         | D_Saving r \<Rightarrow>
             (case saveSessionFromContext out of
                None \<Rightarrow>
                  (let s1 = updateJobStatus jobId InMeeting s
                   in set_pc k (if startRecording (queue s1 ! i) then D_Stabilizing r
                                else D_Done) s1)
              | Some msg \<Rightarrow> inner_catch k msg s)
         | D_Stabilizing r \<Rightarrow>
             set_pc k (if \<not> isActive (sessions s ! r)
                       then D_Throwing ''Session is no longer active''
                       else D_Recording r (isRecording (sessions s ! r))) s
         | D_Recording r already \<Rightarrow>
             set_pc k D_Done (if already then s else startRecording_finish r out s)
         | D_Throwing msg \<Rightarrow> inner_catch k msg s
         | D_Cleanup msg \<Rightarrow> set_pc k (D_Released msg) (releaseSession_finish jobId s)
         | D_Released msg \<Rightarrow> processJob_catch k msg now s
         | D_Done \<Rightarrow> s
         | D_Failed \<Rightarrow> s)"

text \<open>
  The route \<open>POST /api/leave-meeting/:jobId\<close>. Without a session it answers 404. It
  stops a running recording, leaves the meeting, releases the session and then calls
  \<open>completeJob\<close>; an exception on the way ends the request with status 500. The route
  without a job id does the same for each bound job id in turn.
\<close>

definition leave_request :: "jobid \<Rightarrow> server \<Rightarrow> server" where
  "leave_request jobId s =
     (case map_of (activeSessions s) jobId of
        None \<Rightarrow> s
      | Some r \<Rightarrow>
          s\<lparr>leaves := leaves s @
              [if isRecording (sessions s ! r)
               then (if isActive (sessions s ! r) then L_Stopping jobId r else L_Done)
               else L_Leaving jobId (\<not> isActive (sessions s ! r))]\<rparr>)"

definition set_leave :: "nat \<Rightarrow> leave_pc \<Rightarrow> server \<Rightarrow> server" where
  "set_leave k pc s = s\<lparr>leaves := (leaves s)[k := pc]\<rparr>"

text \<open>
  \<open>RecordingHandler.stopRecording\<close> clears the flag when it has stopped the recording;
  \<open>MeetingSession.leaveMeeting\<close> returns \<open>true\<close> at once for an inactive session,
  which \<open>L_Leaving\<close> records when the function is called.
\<close>

definition stopRecording_finish :: "nat \<Rightarrow> await_result \<Rightarrow> server \<Rightarrow> server" where
  "stopRecording_finish r out s =
     (case out of
        Resolve True \<Rightarrow> s\<lparr>sessions := (sessions s)[r := (sessions s ! r)\<lparr>isRecording := False\<rparr>]\<rparr>
      | _ \<Rightarrow> s)"

definition leave_step :: "nat \<Rightarrow> await_result \<Rightarrow> time \<Rightarrow> server \<Rightarrow> server" where
  "leave_step k out now s =
     (case leaves s ! k of
        L_Stopping jobId r \<Rightarrow>
          set_leave k (L_Leaving jobId (\<not> isActive (sessions s ! r)))
            (stopRecording_finish r out s)
      | L_Leaving jobId returned \<Rightarrow>
          (case (if returned then Resolve True else out) of
             Reject msg \<Rightarrow> set_leave k L_Done s
           | Resolve left \<Rightarrow>
               (let (waits, s1) = releaseSession_begin jobId s
                in set_leave k (if waits then L_Cleanup jobId else L_Released jobId) s1))
      | L_Cleanup jobId \<Rightarrow> set_leave k (L_Released jobId) (releaseSession_finish jobId s)
      | L_Released jobId \<Rightarrow> set_leave k L_Done (completeJob jobId None now s)
      | L_Done \<Rightarrow> s)"

section \<open>Runs of the server\<close>

text \<open>
  An event is one uninterrupted run of code: a request that adds a job, a timer firing,
  a run of the processor or of a leave request continuing after an \<open>await\<close>, a new leave
  request, or \<open>clearTimers\<close>. An event whose code reads the clock carries the reading. The events
  may follow one another in any order, which covers every interleaving of the suspended
  runs. The outcome of an awaited call of the browser is part of the event; the functions
  of \<open>MeetJoiner\<close> and \<open>RecordingHandler\<close> catch their errors and return \<open>false\<close>, and a
  rejection is handled all the same, as the \<open>try\<close> block of the caller would.

  The routes that stop a recording only write the recording flag of a session. The switch
  of the headless mode (\<open>reinitialize\<close>) and the shutdown of the pool (\<open>close\<close>) are
  not among the events.
\<close>

datatype event =
    AddJob string bool "time option" jobid time
  | TimerFire nat time
  | DriverStep nat await_result time
  | LeaveRequest jobid
  | LeaveStep nat await_result time
  | ClearTimers

text \<open>
  An event can happen when its timer is pending or its run is waiting. \<open>uuidv4()\<close>
  returns an id that no job has yet.
\<close>

fun enabled :: "event \<Rightarrow> server \<Rightarrow> bool" where
  "enabled (AddJob url rec sched newId now) s \<longleftrightarrow> newId \<notin> set (map job_id (queue s))"
| "enabled (TimerFire h now) s \<longleftrightarrow>
     h < length (timeouts s) \<and> timer_state (timeouts s ! h) = Pending"
| "enabled (DriverStep k out now) s \<longleftrightarrow>
     k < length (drivers s) \<and> snd (drivers s ! k) \<noteq> D_Done \<and> snd (drivers s ! k) \<noteq> D_Failed"
| "enabled (LeaveRequest jobId) s \<longleftrightarrow> True"
| "enabled (LeaveStep k out now) s \<longleftrightarrow> k < length (leaves s) \<and> leaves s ! k \<noteq> L_Done"
| "enabled ClearTimers s \<longleftrightarrow> True"

fun step :: "event \<Rightarrow> server \<Rightarrow> server" where
  "step (AddJob url rec sched newId now) s = snd (addJob url rec sched newId now s)"
| "step (TimerFire h now) s = timerFired h now s"
| "step (DriverStep k out now) s = driver_step k out now s"
| "step (LeaveRequest jobId) s = leave_request jobId s"
| "step (LeaveStep k out now) s = leave_step k out now s"
| "step ClearTimers s = clearTimers s"

fun run :: "event list \<Rightarrow> server \<Rightarrow> server option" where
  "run [] s = Some s"
| "run (e # es) s = (if enabled e s then run es (step e s) else None)"

text \<open>
  The server when it starts to listen: \<open>initializeAutomation\<close> has launched the browser
  and set the processor; nothing else has happened.
\<close>

definition init :: "nat \<Rightarrow> server" where
  "init maxc =
     \<lparr>maxConcurrentSessions = maxc, queue = [], activeJobs = [], processCallback = True,
      scheduledTimers = [], timeouts = [], browser = True, activeSessions = [],
      sessions = [], drivers = [], leaves = []\<rparr>"

section \<open>The invariant of the runs\<close>

definition keysJ :: "server \<Rightarrow> jobid set" where
  "keysJ s = fst ` set (activeJobs s)"

definition keysS :: "server \<Rightarrow> jobid set" where
  "keysS s = fst ` set (activeSessions s)"

text \<open>The id of the job that run \<open>k\<close> of the processor works on.\<close>

definition driver_job :: "server \<Rightarrow> nat \<Rightarrow> jobid" where
  "driver_job s k = job_id (queue s ! fst (drivers s ! k))"

fun leave_job :: "leave_pc \<Rightarrow> jobid option" where
  "leave_job (L_Stopping jobId r) = Some jobId"
| "leave_job (L_Leaving jobId b) = Some jobId"
| "leave_job (L_Cleanup jobId) = Some jobId"
| "leave_job (L_Released jobId) = Some jobId"
| "leave_job L_Done = None"

definition leaveIds :: "server \<Rightarrow> jobid set" where
  "leaveIds s = {j. \<exists>k < length (leaves s). leave_job (leaves s ! k) = Some j}"

text \<open>
  The suspension points at which the processor has no session bound to its job: before
  \<open>acquireSession\<close> has bound one, and after \<open>releaseSession\<close> has returned.
\<close>

fun unbound_pc :: "driver_pc \<Rightarrow> bool" where
  "unbound_pc (D_AcqRejected msg) = True"
| "unbound_pc (D_AcqResolved None) = True"
| "unbound_pc D_Creating = True"
| "unbound_pc (D_Released msg) = True"
| "unbound_pc pc = False"

text \<open>
  What holds between the queue, the pool and the suspended runs in every state that the
  server reaches: job ids are unique; both maps have one entry per key; the queue holds at
  most \<open>maxConcurrentSessions\<close> active jobs; every bound session belongs to an active job;
  a job has at most one run of the processor, and it is no longer \<open>queued\<close>; a run waiting
  in \<open>MeetingSession.create\<close> works on an active job; a run at an unbound suspension
  point has no session in the pool; a \<open>queued\<close> job has no session and no leave request;
  a leave request past its release has no session; no leave request is for a job whose
  session is still being created; \<open>acquireSession\<close> has never returned \<open>null\<close>.
\<close>

definition server_inv :: "server \<Rightarrow> bool" where
  "server_inv s \<longleftrightarrow>
     processCallback s \<and>
     distinct (map job_id (queue s)) \<and>
     distinct (map fst (activeJobs s)) \<and>
     distinct (map fst (activeSessions s)) \<and>
     length (activeJobs s) \<le> maxConcurrentSessions s \<and>
     keysS s \<subseteq> keysJ s \<and>
     distinct (map fst (drivers s)) \<and>
     (\<forall>k < length (drivers s).
        fst (drivers s ! k) < length (queue s) \<and>
        status (queue s ! fst (drivers s ! k)) \<noteq> Queued \<and>
        snd (drivers s ! k) \<noteq> D_AcqResolved None \<and>
        (snd (drivers s ! k) = D_Creating \<longrightarrow>
           driver_job s k \<in> keysJ s \<and> driver_job s k \<notin> leaveIds s) \<and>
        (unbound_pc (snd (drivers s ! k)) \<longrightarrow> driver_job s k \<notin> keysS s)) \<and>
     keysS s \<union> leaveIds s \<subseteq> set (map job_id (queue s)) \<and>
     (\<forall>i < length (queue s).
        status (queue s ! i) = Queued \<longrightarrow> job_id (queue s ! i) \<notin> keysS s \<union> leaveIds s) \<and>
     (\<forall>k < length (leaves s). \<forall>j. leaves s ! k = L_Released j \<longrightarrow> j \<notin> keysS s)"

text \<open>
  The acquisitions in flight: the runs of \<open>acquireSession\<close> that have passed the check of
  the limit and wait in \<open>MeetingSession.create\<close>, their session not yet bound.
\<close>

definition inflight :: "server \<Rightarrow> nat" where
  "inflight s = length (filter (\<lambda>d. snd d = D_Creating) (drivers s))"

text \<open>A run of three events: two jobs are added, and the session of the first is created.\<close>

definition tr_two :: "event list" where
  "tr_two = [AddJob ''https://meet.google.com/x'' True None ''a'' 10,
             AddJob ''https://meet.google.com/y'' True None ''b'' 11,
             DriverStep 0 (Resolve True) 12]"

text \<open>
  Two events after a job has been scheduled for the time 100: another job is added at
  time 20, and its session is created at time 30.
\<close>

definition tr_wait :: "event list" where
  "tr_wait = [AddJob ''https://meet.google.com/y'' True None ''b'' 20,
              DriverStep 0 (Resolve True) 30]"

text \<open>
  Jobs without a scheduled time leave \<open>queued\<close> in the order of their submission: when a
  later one is no longer \<open>queued\<close>, no earlier one is.
\<close>

definition unscheduled_in_order :: "server \<Rightarrow> bool" where
  "unscheduled_in_order s \<longleftrightarrow>
     (\<forall>i j. i < j \<and> j < length (queue s) \<and>
            scheduledTime (queue s ! i) = None \<and> scheduledTime (queue s ! j) = None \<and>
            status (queue s ! j) \<noteq> Queued
        \<longrightarrow> status (queue s ! i) \<noteq> Queued)"

text \<open>What the order of dispatch depends on: per job, its scheduled time and whether it is queued.\<close>

definition qview :: "server \<Rightarrow> (time option \<times> bool) list" where
  "qview s = map (\<lambda>job. (scheduledTime job, status job = Queued)) (queue s)"

text \<open>A server with room for one session and two jobs waiting, as before a dispatch pass.\<close>

definition two_queued :: server where
  "two_queued =
     (init 1)\<lparr>queue :=
       [\<lparr>job_id = ''a'', meetingUrl = ''https://meet.google.com/x'', startRecording = True,
          scheduledTime = None, status = Queued, error = None,
          createdAt = 1, startedAt = None, completedAt = None\<rparr>,
        \<lparr>job_id = ''b'', meetingUrl = ''https://meet.google.com/y'', startRecording = True,
          scheduledTime = None, status = Queued, error = None,
          createdAt = 2, startedAt = None, completedAt = None\<rparr>]\<rparr>"

text \<open>
  A run in which the client asks to leave while the processor is still joining: the job is
  added, its session is created and bound, \<open>joinMeeting\<close> is called; then the leave route
  finds the session, \<open>leaveMeeting\<close> finds no leave button, the session is released and
  \<open>completeJob\<close> is called. \<open>leave_early_state\<close> is the state after these events.
\<close>

definition tr_leave_early :: "event list" where
  "tr_leave_early =
     [AddJob ''https://meet.google.com/x'' False None ''a'' 10,
      DriverStep 0 (Resolve True) 11,
      DriverStep 0 (Resolve True) 12,
      LeaveRequest ''a'',
      LeaveStep 0 (Resolve False) 13,
      LeaveStep 0 (Resolve True) 14,
      LeaveStep 0 (Resolve True) 15]"

definition leave_early_state :: server where
  "leave_early_state = foldl (\<lambda>s e. step e s) (init 1) tr_leave_early"

text \<open>
  A server whose pool is full while its queue has a free slot, with one job waiting;
  \<open>pool_full_dispatched\<close> is the state after a dispatch pass at time 5.
\<close>

definition pool_full :: server where
  "pool_full =
     (init 1)\<lparr>queue :=
       [\<lparr>job_id = ''a'', meetingUrl = ''https://meet.google.com/x'', startRecording = True,
          scheduledTime = None, status = Queued, error = None,
          createdAt = 1, startedAt = None, completedAt = None\<rparr>],
       activeSessions := [(''z'', 0)],
       sessions := [\<lparr>isActive = True, isRecording = False\<rparr>]\<rparr>"

definition pool_full_dispatched :: server where
  "pool_full_dispatched = processNext 5 pool_full"

text \<open>
  The suspension points from which the promise of the processor rejects at its next step,
  with the message of the error: \<open>acquireSession\<close> has failed or has returned \<open>null\<close>
  (both outside the \<open>try\<close> block), or the \<open>catch\<close> block has released the session and
  throws the error again.
\<close>

fun throws_msg :: "driver_pc \<Rightarrow> string option" where
  "throws_msg (D_AcqRejected msg) = Some msg"
| "throws_msg (D_AcqResolved None) = Some ''No session slot available''"
| "throws_msg (D_Released msg) = Some msg"
| "throws_msg pc = None"

text \<open>
  A run in which joining fails: the job is added, its session is created and bound,
  \<open>joinMeeting\<close> is called and returns \<open>false\<close>, the \<open>catch\<close> block of the processor
  releases the session. \<open>join_failed_state\<close> is the state in which the processor is about
  to throw the error again. A second job has been waiting since time 11.
\<close>

definition tr_join_fails :: "event list" where
  "tr_join_fails =
     [AddJob ''https://meet.google.com/x'' True None ''a'' 10,
      AddJob ''https://meet.google.com/y'' True None ''b'' 11,
      DriverStep 0 (Resolve True) 12,
      DriverStep 0 (Resolve True) 13,
      DriverStep 0 (Resolve False) 14,
      DriverStep 0 (Resolve True) 15]"

definition join_failed_state :: server where
  "join_failed_state = foldl (\<lambda>s e. step e s) (init 1) tr_join_fails"

text \<open>
  A run in which the client asks to leave during the wait before the recording is started:
  the job is added, its session is created and bound, joining succeeds, the session is
  saved and the job marked \<open>in-meeting\<close>; then the leave route leaves the meeting,
  releases the session and calls \<open>completeJob\<close>; then the wait of the processor ends.
\<close>

definition tr_leave_in_wait :: "event list" where
  "tr_leave_in_wait =
     [AddJob ''https://meet.google.com/x'' True None ''a'' 10,
      DriverStep 0 (Resolve True) 11,
      DriverStep 0 (Resolve True) 12,
      DriverStep 0 (Resolve True) 13,
      DriverStep 0 (Resolve True) 14,
      LeaveRequest ''a'',
      LeaveStep 0 (Resolve True) 15,
      LeaveStep 0 (Resolve True) 16,
      LeaveStep 0 (Resolve True) 17]"

definition saving_state :: server where
  "saving_state = foldl (\<lambda>s e. step e s) (init 1) (take 4 tr_leave_in_wait)"

definition joined_state :: server where
  "joined_state = foldl (\<lambda>s e. step e s) (init 1) (take 5 tr_leave_in_wait)"

definition left_in_wait_state :: server where
  "left_in_wait_state = foldl (\<lambda>s e. step e s) (init 1) tr_leave_in_wait"

text \<open>
  A run in which the wait before the recording ends while the session is active, so that
  \<open>RecordingHandler.startRecording\<close> is called (\<open>recording_state\<close>), and the client
  asks to leave while that call is running: the leave route leaves the meeting, releases
  the session and calls \<open>completeJob\<close>.
\<close>

definition tr_leave_while_recording :: "event list" where
  "tr_leave_while_recording =
     take 5 tr_leave_in_wait @
     [DriverStep 0 (Resolve True) 20,
      LeaveRequest ''a'',
      LeaveStep 0 (Resolve True) 21,
      LeaveStep 0 (Resolve True) 22,
      LeaveStep 0 (Resolve True) 23]"

definition recording_state :: server where
  "recording_state = foldl (\<lambda>s e. step e s) (init 1) (take 6 tr_leave_while_recording)"

definition left_while_recording :: server where
  "left_while_recording = foldl (\<lambda>s e. step e s) (init 1) tr_leave_while_recording"

text \<open>
  The registry \<open>scheduledTimers\<close> and the timers of the runtime agree: the registry has
  one entry per job id; every pending timer is the entry of its job; every entry is a
  pending timer of its job.
\<close>

definition timers_ok :: "server \<Rightarrow> bool" where
  "timers_ok s \<longleftrightarrow>
     distinct (map fst (scheduledTimers s)) \<and>
     (\<forall>h. h < length (timeouts s) \<and> timer_state (timeouts s ! h) = Pending \<longrightarrow>
          map_of (scheduledTimers s) (timer_job (timeouts s ! h)) = Some h) \<and>
     (\<forall>jobId h. map_of (scheduledTimers s) jobId = Some h \<longrightarrow>
          h < length (timeouts s) \<and> timer_job (timeouts s ! h) = jobId \<and>
          timer_state (timeouts s ! h) = Pending)"

text \<open>
  A run in which a job is scheduled for the time 100 and a second one for the time 200;
  the dispatch pass of the second submission sees the first job again.
\<close>

definition tr_timers :: "event list" where
  "tr_timers =
     [AddJob ''https://meet.google.com/x'' True (Some 100) ''a'' 10,
      AddJob ''https://meet.google.com/y'' True (Some 200) ''b'' 20]"

definition timers_state :: server where
  "timers_state = foldl (\<lambda>s e. step e s) (init 1) tr_timers"

text \<open>The reading of the clock that an event carries, if it reads the clock.\<close>

fun event_time :: "event \<Rightarrow> time option" where
  "event_time (AddJob url rec sched newId now) = Some now"
| "event_time (TimerFire h now) = Some now"
| "event_time (DriverStep k out now) = Some now"
| "event_time (LeaveRequest jobId) = None"
| "event_time (LeaveStep k out now) = Some now"
| "event_time ClearTimers = None"

text \<open>
  The suspension points of the processor between its mark \<open>in-meeting\<close> and the return
  of \<open>startRecording\<close>: the wait before the recording, and the call itself.
\<close>

fun recording_pc :: "driver_pc \<Rightarrow> bool" where
  "recording_pc (D_Stabilizing r) = True"
| "recording_pc (D_Recording r already) = True"
| "recording_pc pc = False"

text \<open>
  A run of the processor that waits at one of these points works on a job that is
  \<open>in-meeting\<close>, or \<open>completed\<close> when a leave request has completed it since.
\<close>

definition recording_jobs_joined :: "server \<Rightarrow> bool" where
  "recording_jobs_joined s \<longleftrightarrow>
     (\<forall>k < length (drivers s). recording_pc (snd (drivers s ! k)) \<longrightarrow>
        status (queue s ! fst (drivers s ! k)) = InMeeting \<or>
        status (queue s ! fst (drivers s ! k)) = Completed)"

text \<open>
  The queue is an exported object, and \<open>completeJob\<close> and \<open>updateJobStatus\<close> are public
  methods of it. A call is an event of the server or one of these methods called directly,
  at any moment and for any job id.
\<close>

datatype call =
    Event event
  | CompleteJob jobid "string option" time
  | UpdateJobStatus jobid job_status

fun call_enabled :: "call \<Rightarrow> server \<Rightarrow> bool" where
  "call_enabled (Event e) s \<longleftrightarrow> enabled e s"
| "call_enabled (CompleteJob jobId err now) s \<longleftrightarrow> True"
| "call_enabled (UpdateJobStatus jobId st) s \<longleftrightarrow> True"

fun call_step :: "call \<Rightarrow> server \<Rightarrow> server" where
  "call_step (Event e) s = step e s"
| "call_step (CompleteJob jobId err now) s = completeJob jobId err now s"
| "call_step (UpdateJobStatus jobId st) s = updateJobStatus jobId st s"

fun calls :: "call list \<Rightarrow> server \<Rightarrow> server option" where
  "calls [] s = Some s"
| "calls (c # cs) s = (if call_enabled c s then calls cs (call_step c s) else None)"

text \<open>
  Three jobs are added to a server with room for two, so that two acquisitions are in
  flight and the third job waits; \<open>completeJob\<close> is called for the first job while its
  session is still being created. \<open>completed_in_flight\<close> is the state after that call;
  in \<open>three_sessions\<close> the three calls of \<open>MeetingSession.create\<close> have resolved.
\<close>

definition tr_complete_in_flight :: "call list" where
  "tr_complete_in_flight =
     [Event (AddJob ''https://meet.google.com/x'' True None ''a'' 10),
      Event (AddJob ''https://meet.google.com/y'' True None ''b'' 11),
      Event (AddJob ''https://meet.google.com/z'' True None ''c'' 12),
      CompleteJob ''a'' None 13,
      Event (DriverStep 0 (Resolve True) 14),
      Event (DriverStep 1 (Resolve True) 15),
      Event (DriverStep 2 (Resolve True) 16)]"

definition completed_in_flight :: server where
  "completed_in_flight = foldl (\<lambda>s c. call_step c s) (init 2) (take 4 tr_complete_in_flight)"

definition three_sessions :: server where
  "three_sessions = foldl (\<lambda>s c. call_step c s) (init 2) tr_complete_in_flight"

text \<open>
  A server with room for one session in which a job has been scheduled for the time 100;
  its timer is pending.
\<close>

definition scheduled_state :: server where
  "scheduled_state = step (AddJob ''https://meet.google.com/x'' True (Some 100) ''a'' 10) (init 1)"

section \<open>Basic facts about the queue operations\<close>

declare saveSessionFromContext_def [simp]

lemma scheduleTimers_frame [simp]:
  "queue (scheduleTimers now xs s) = queue s"
  "activeJobs (scheduleTimers now xs s) = activeJobs s"
  "maxConcurrentSessions (scheduleTimers now xs s) = maxConcurrentSessions s"
  "processCallback (scheduleTimers now xs s) = processCallback s"
  "browser (scheduleTimers now xs s) = browser s"
  "activeSessions (scheduleTimers now xs s) = activeSessions s"
  "sessions (scheduleTimers now xs s) = sessions s"
  "drivers (scheduleTimers now xs s) = drivers s"
  "leaves (scheduleTimers now xs s) = leaves s"
  by (induction xs arbitrary: s) (simp_all add: Let_def)

lemma scheduleUpcomingJobs_frame [simp]:
  "queue (scheduleUpcomingJobs now s) = queue s"
  "activeJobs (scheduleUpcomingJobs now s) = activeJobs s"
  "maxConcurrentSessions (scheduleUpcomingJobs now s) = maxConcurrentSessions s"
  "processCallback (scheduleUpcomingJobs now s) = processCallback s"
  "browser (scheduleUpcomingJobs now s) = browser s"
  "activeSessions (scheduleUpcomingJobs now s) = activeSessions s"
  "sessions (scheduleUpcomingJobs now s) = sessions s"
  "drivers (scheduleUpcomingJobs now s) = drivers s"
  "leaves (scheduleUpcomingJobs now s) = leaves s"
  by (simp_all add: scheduleUpcomingJobs_def)

lemma processJob_frame [simp]:
  "maxConcurrentSessions (processJob now i s) = maxConcurrentSessions s"
  "processCallback (processJob now i s) = processCallback s"
  "browser (processJob now i s) = browser s"
  "activeSessions (processJob now i s) = activeSessions s"
  "sessions (processJob now i s) = sessions s"
  "leaves (processJob now i s) = leaves s"
  "scheduledTimers (processJob now i s) = scheduledTimers s"
  "timeouts (processJob now i s) = timeouts s"
  "length (queue (processJob now i s)) = length (queue s)"
  by (simp_all add: processJob_def Let_def)

lemma dispatch_frame [simp]:
  "maxConcurrentSessions (dispatch now xs s) = maxConcurrentSessions s"
  "processCallback (dispatch now xs s) = processCallback s"
  "browser (dispatch now xs s) = browser s"
  "activeSessions (dispatch now xs s) = activeSessions s"
  "sessions (dispatch now xs s) = sessions s"
  "leaves (dispatch now xs s) = leaves s"
  "scheduledTimers (dispatch now xs s) = scheduledTimers s"
  "timeouts (dispatch now xs s) = timeouts s"
  "length (queue (dispatch now xs s)) = length (queue s)"
  by (induction xs arbitrary: s) simp_all

lemma processNext_frame [simp]:
  "maxConcurrentSessions (processNext now s) = maxConcurrentSessions s"
  "processCallback (processNext now s) = processCallback s"
  "browser (processNext now s) = browser s"
  "activeSessions (processNext now s) = activeSessions s"
  "sessions (processNext now s) = sessions s"
  "leaves (processNext now s) = leaves s"
  "length (queue (processNext now s)) = length (queue s)"
  by (simp_all add: processNext_def)

lemma length_alist_update: "length (AList.update k v al) \<le> Suc (length al)"
  by (induction al) auto

lemma length_activeJobs_processJob:
  "length (activeJobs (processJob now i s)) \<le> Suc (length (activeJobs s))"
  by (simp add: processJob_def Let_def length_alist_update)

lemma queue_processJob:
  "processCallback s \<Longrightarrow>
   queue (processJob now i s) = (queue s)[i := (queue s ! i)\<lparr>status := Processing, startedAt := Some now\<rparr>]"
  by (simp add: processJob_def Let_def)

lemma dispatch_snoc:
  "length (activeJobs s) + length xs < maxConcurrentSessions s \<Longrightarrow>
   dispatch now (xs @ [i]) s = processJob now i (dispatch now xs s)"
proof (induction xs arbitrary: s)
  case Nil
  then show ?case by simp
next
  case (Cons x xs)
  have "length (activeJobs (processJob now x s)) + length xs < maxConcurrentSessions (processJob now x s)"
    using Cons.prems length_activeJobs_processJob [of now x s] by simp
  from Cons.IH [OF this] Cons.prems show ?case by simp
qed

lemma readyJobs_snoc:
  "readyJobs now (s\<lparr>queue := queue s @ [job]\<rparr>) =
     readyJobs now s @ (if isReady now job then [length (queue s)] else [])"
  by (auto simp: readyJobs_def nth_append intro!: filter_cong)

lemma dispatch_cong_queue_tail:
  "\<forall>i \<in> set xs. i < length (queue s) \<Longrightarrow>
   dispatch now xs (s\<lparr>queue := queue s @ [job]\<rparr>) = (dispatch now xs s)\<lparr>queue := queue (dispatch now xs s) @ [job]\<rparr>"
proof (induction xs arbitrary: s)
  case Nil
  then show ?case by simp
next
  case (Cons x xs)
  have x: "x < length (queue s)" using Cons.prems by simp
  have "processJob now x (s\<lparr>queue := queue s @ [job]\<rparr>) = (processJob now x s)\<lparr>queue := queue (processJob now x s) @ [job]\<rparr>"
    using x by (simp add: processJob_def Let_def nth_append list_update_append acquireSession_check_def)
  moreover have "\<forall>i \<in> set xs. i < length (queue (processJob now x s))" using Cons.prems by simp
  ultimately show ?case using Cons.IH [of "processJob now x s"] by simp
qed

section \<open>What addJob returns\<close>

text \<open>
  Claim C10, as amended. \<open>addJob\<close> runs a dispatch pass before it returns. When a
  processor is set, the new job has no scheduled time in the future, and a slot is still
  free when the scan reaches the new job, that is, the active jobs and the ready jobs
  queued before it are together fewer than \<open>maxConcurrentSessions\<close>, the job object that
  \<open>addJob\<close> returns has status \<open>processing\<close> and its \<open>startedAt\<close> is set: the caller
  does not see it \<open>queued\<close>.
\<close>

theorem addJob_returns_processing:
  assumes cb: "processCallback s"
    and due: "case sched of None \<Rightarrow> True | Some t \<Rightarrow> t \<le> now"
    and cap: "length (activeJobs s) + length (readyJobs now s) < maxConcurrentSessions s"
  shows "fst (addJob url rec sched newId now s) = length (queue s) \<and>
         status (queue (snd (addJob url rec sched newId now s)) ! length (queue s)) = Processing \<and>
         startedAt (queue (snd (addJob url rec sched newId now s)) ! length (queue s)) = Some now \<and>
         job_id (queue (snd (addJob url rec sched newId now s)) ! length (queue s)) = newId"
proof -
  define job where "job = \<lparr>job_id = newId, meetingUrl = url, startRecording = rec,
                 scheduledTime = sched, status = Queued, error = None,
                 createdAt = now, startedAt = None, completedAt = None\<rparr>"
  define s1 where "s1 = s\<lparr>queue := queue s @ [job]\<rparr>"
  have rdy: "isReady now job" using due by (simp add: isReady_def job_def)
  have r1: "readyJobs now s1 = readyJobs now s @ [length (queue s)]"
    unfolding s1_def using rdy by (simp add: readyJobs_snoc)
  have cap1: "length (activeJobs s1) + length (readyJobs now s) < maxConcurrentSessions s1"
    using cap by (simp add: s1_def)
  have d: "dispatch now (readyJobs now s1) s1 = processJob now (length (queue s)) (dispatch now (readyJobs now s) s1)"
    unfolding r1 by (rule dispatch_snoc [OF cap1])
  have bound: "\<forall>i \<in> set (readyJobs now s). i < length (queue s)" by (simp add: readyJobs_def)
  have q: "queue (dispatch now (readyJobs now s) s1) = queue (dispatch now (readyJobs now s) s) @ [job]"
    unfolding s1_def by (simp add: dispatch_cong_queue_tail [OF bound])
  have cb1: "processCallback (dispatch now (readyJobs now s) s1)" using cb by (simp add: s1_def)
  have "queue (processNext now s1) = (queue (dispatch now (readyJobs now s) s) @ [job])[length (queue s) := job\<lparr>status := Processing, startedAt := Some now\<rparr>]"
    using cb by (simp add: processNext_def s1_def [symmetric] d queue_processJob [OF cb1] q nth_append, simp add: s1_def)
  then show ?thesis
    by (simp add: addJob_def Let_def job_def [symmetric] s1_def [symmetric], simp add: job_def)
qed

theorem addJob_returns_processing_witness:
  "processCallback (init 1) \<and>
   length (activeJobs (init 1)) + length (readyJobs 10 (init 1)) < maxConcurrentSessions (init 1) \<and>
   status (queue (snd (addJob ''u'' True None ''a'' 10 (init 1))) ! length (queue (init 1))) = Processing \<and>
   startedAt (queue (snd (addJob ''u'' True None ''a'' 10 (init 1))) ! length (queue (init 1))) = Some 10"
proof -
  have cb: "processCallback (init 1)" by (simp add: init_def)
  have due: "case (None :: time option) of None \<Rightarrow> True | Some t \<Rightarrow> t \<le> 10" by simp
  have cap: "length (activeJobs (init 1)) + length (readyJobs 10 (init 1)) < maxConcurrentSessions (init 1)"
    by (simp add: init_def readyJobs_def)
  from addJob_returns_processing [OF cb due cap, of "''u''" True "''a''"] cb cap
  show ?thesis by simp
qed

text \<open>
  Claim C10 as stated fails where a free slot goes to a job queued earlier. In
  \<open>scheduled_state\<close> a processor is set, no job is active and the limit is one, a job
  scheduled for the time 100 is queued and its timer has not fired. A job without a
  scheduled time is added at the time 100: the dispatch pass of \<open>addJob\<close> finds the
  scheduled job ready and gives it the slot, and the job that \<open>addJob\<close> returns is
  \<open>queued\<close> with no \<open>startedAt\<close>.
\<close>

theorem addJob_returns_queued:
  "run [AddJob ''https://meet.google.com/x'' True (Some 100) ''a'' 10] (init 1) = Some scheduled_state \<and>
   processCallback scheduled_state \<and>
   length (activeJobs scheduled_state) = 0 \<and>
   maxConcurrentSessions scheduled_state = 1 \<and>
   timer_state (timeouts scheduled_state ! 0) = Pending \<and>
   fst (addJob ''https://meet.google.com/y'' True None ''b'' 100 scheduled_state) = 1 \<and>
   status (queue (snd (addJob ''https://meet.google.com/y'' True None ''b'' 100 scheduled_state)) ! 1) = Queued \<and>
   startedAt (queue (snd (addJob ''https://meet.google.com/y'' True None ''b'' 100 scheduled_state)) ! 1) = None \<and>
   status (queue (snd (addJob ''https://meet.google.com/y'' True None ''b'' 100 scheduled_state)) ! 0) = Processing"
  by code_simp

section \<open>Preservation of the invariant\<close>

lemma inv_init: "server_inv (init n)"
  by (simp add: server_inv_def init_def keysS_def keysJ_def leaveIds_def)

lemma inv_timers_sessions [simp]:
  "server_inv (s\<lparr>timeouts := ts\<rparr>) = server_inv s"
  "server_inv (s\<lparr>scheduledTimers := reg\<rparr>) = server_inv s"
  "server_inv (s\<lparr>sessions := ss\<rparr>) = server_inv s"
  by (simp_all add: server_inv_def keysS_def keysJ_def leaveIds_def driver_job_def)

lemma scheduleTimers_eq: "\<exists>ts reg. scheduleTimers now xs s = s\<lparr>timeouts := ts, scheduledTimers := reg\<rparr>"
proof (induction xs arbitrary: s)
  case Nil
  have "s = s\<lparr>timeouts := timeouts s, scheduledTimers := scheduledTimers s\<rparr>" by simp
  then show ?case by (metis scheduleTimers.simps(1))
next
  case (Cons x xs)
  show ?case
  proof (cases "map_of (scheduledTimers s) (job_id (queue s ! x)) \<noteq> None")
    case True
    then show ?thesis using Cons.IH [of s] by (simp add: Let_def)
  next
    case False
    let ?s1 = "s\<lparr>timeouts := timeouts s @
                      [\<lparr>timer_job = job_id (queue s ! x),
                        delay = (case scheduledTime (queue s ! x) of Some t \<Rightarrow> t - now | None \<Rightarrow> 0),
                        timer_state = Pending\<rparr>],
                    scheduledTimers :=
                      AList.update (job_id (queue s ! x)) (length (timeouts s)) (scheduledTimers s)\<rparr>"
    from Cons.IH [of ?s1] obtain ts reg where "scheduleTimers now xs ?s1 = ?s1\<lparr>timeouts := ts, scheduledTimers := reg\<rparr>" by blast
    then have "scheduleTimers now (x # xs) s = s\<lparr>timeouts := ts, scheduledTimers := reg\<rparr>"
      using False by (simp add: Let_def)
    then show ?thesis by blast
  qed
qed

lemma inv_scheduleTimers [simp]: "server_inv (scheduleTimers now xs s) = server_inv s"
proof -
  obtain ts reg where "scheduleTimers now xs s = s\<lparr>timeouts := ts, scheduledTimers := reg\<rparr>"
    using scheduleTimers_eq by blast
  then show ?thesis by simp
qed

lemma sessions_le_jobs:
  assumes "server_inv s" shows "length (activeSessions s) \<le> length (activeJobs s)"
proof -
  have "length (activeSessions s) = card (keysS s)"
    using assms distinct_card [of "map fst (activeSessions s)"] by (simp add: server_inv_def keysS_def)
  moreover have "length (activeJobs s) = card (keysJ s)"
    using assms distinct_card [of "map fst (activeJobs s)"] by (simp add: server_inv_def keysJ_def)
  moreover have "card (keysS s) \<le> card (keysJ s)"
    using assms by (intro card_mono) (simp_all add: server_inv_def keysJ_def)
  ultimately show ?thesis by simp
qed

lemma distinct_ids_eq:
  "distinct (map job_id q) \<Longrightarrow> i < length q \<Longrightarrow> j < length q \<Longrightarrow> job_id (q ! i) = job_id (q ! j) \<Longrightarrow> i = j"
  by (metis length_map nth_eq_iff_index_eq nth_map)

lemma keys_update [simp]: "fst ` set (AList.update k v al) = insert k (fst ` set al)"
  by (simp add: dom_update)

lemma map_of_Some_key: "map_of al k = Some v \<Longrightarrow> k \<in> fst ` set al"
  by (metis map_of_eq_None_iff option.distinct(1))

lemma server_invI:
  assumes "processCallback s"
    "distinct (map job_id (queue s))"
    "distinct (map fst (activeJobs s))"
    "distinct (map fst (activeSessions s))"
    "length (activeJobs s) \<le> maxConcurrentSessions s"
    "keysS s \<subseteq> keysJ s"
    "distinct (map fst (drivers s))"
    "\<And>k. k < length (drivers s) \<Longrightarrow>
        fst (drivers s ! k) < length (queue s) \<and>
        status (queue s ! fst (drivers s ! k)) \<noteq> Queued \<and>
        snd (drivers s ! k) \<noteq> D_AcqResolved None \<and>
        (snd (drivers s ! k) = D_Creating \<longrightarrow>
           driver_job s k \<in> keysJ s \<and> driver_job s k \<notin> leaveIds s) \<and>
        (unbound_pc (snd (drivers s ! k)) \<longrightarrow> driver_job s k \<notin> keysS s)"
    "keysS s \<union> leaveIds s \<subseteq> set (map job_id (queue s))"
    "\<And>i. i < length (queue s) \<Longrightarrow> status (queue s ! i) = Queued \<Longrightarrow>
        job_id (queue s ! i) \<notin> keysS s \<union> leaveIds s"
    "\<And>k j. k < length (leaves s) \<Longrightarrow> leaves s ! k = L_Released j \<Longrightarrow> j \<notin> keysS s"
  shows "server_inv s"
  using assms unfolding server_inv_def by blast

lemma inv_processJob:
  assumes inv: "server_inv s" and i: "i < length (queue s)" and q: "status (queue s ! i) = Queued"
    and cap: "length (activeJobs s) < maxConcurrentSessions s"
  shows "server_inv (processJob now i s)"
proof -
  have cb: "processCallback s" using inv by (simp add: server_inv_def)
  have nodrv: "\<And>k. k < length (drivers s) \<Longrightarrow> fst (drivers s ! k) \<noteq> i"
    using inv q by (auto simp: server_inv_def)
  have nokey: "job_id (queue s ! i) \<notin> keysS s" "job_id (queue s ! i) \<notin> leaveIds s"
    using inv q i by (auto simp: server_inv_def)
  have room: "length (activeSessions s) < maxConcurrentSessions s"
    using sessions_le_jobs [OF inv] cap by simp
  define pc where "pc = acquireSession_check (job_id (queue s ! i)) s"
  have chk: "pc = D_Creating \<or> (\<exists>m. pc = D_AcqRejected m)"
    using nokey room unfolding pc_def
    by (auto simp: acquireSession_check_def keysS_def dest: map_of_Some_key split: option.splits)
  define s' where "s' = processJob now i s"
  have q': "queue s' = (queue s)[i := (queue s ! i)\<lparr>status := Processing, startedAt := Some now\<rparr>]"
    and aj: "activeJobs s' = AList.update (job_id (queue s ! i)) i (activeJobs s)"
    and dr: "drivers s' = drivers s @ [(i, pc)]"
    and rest: "activeSessions s' = activeSessions s" "leaves s' = leaves s"
       "maxConcurrentSessions s' = maxConcurrentSessions s" "processCallback s' = processCallback s"
    using cb by (simp_all add: s'_def processJob_def Let_def pc_def acquireSession_check_def)
  have ids: "map job_id (queue s') = map job_id (queue s)"
    using i by (simp add: q' map_update list_update_same_conv)
  have jid: "job_id (queue s' ! j) = job_id (queue s ! j)" if "j < length (queue s)" for j
    using that by (cases "j = i") (simp_all add: q')
  have kS: "keysS s' = keysS s" and lI: "leaveIds s' = leaveIds s"
    and kJ: "keysJ s' = insert (job_id (queue s ! i)) (keysJ s)"
    by (simp_all add: keysS_def leaveIds_def keysJ_def rest aj)
  have dj_old: "\<And>k. k < length (drivers s) \<Longrightarrow> driver_job s' k = driver_job s k"
    using inv by (simp add: driver_job_def dr nth_append jid server_inv_def)
  have dj_new: "driver_job s' (length (drivers s)) = job_id (queue s ! i)"
    using i by (simp add: driver_job_def dr jid)
  have "server_inv s'"
  proof (rule server_invI)
    show "processCallback s'" using cb rest by simp
    show "distinct (map job_id (queue s'))" using inv by (simp add: ids server_inv_def)
    show "distinct (map fst (activeJobs s'))" using inv by (simp add: aj distinct_update server_inv_def)
    show "distinct (map fst (activeSessions s'))" using inv by (simp add: rest server_inv_def)
    show "length (activeJobs s') \<le> maxConcurrentSessions s'"
      using cap length_alist_update [of "job_id (queue s ! i)" i "activeJobs s"] by (simp add: aj rest)
    show "keysS s' \<subseteq> keysJ s'" using inv by (auto simp: kS kJ server_inv_def)
    have "i \<notin> set (map fst (drivers s))"
    proof
      assume "i \<in> set (map fst (drivers s))"
      then obtain k where "k < length (drivers s)" "fst (drivers s ! k) = i"
        by (auto simp: in_set_conv_nth)
      then show False using nodrv by blast
    qed
    then show "distinct (map fst (drivers s'))" using inv
      by (simp add: dr server_inv_def)
    show "keysS s' \<union> leaveIds s' \<subseteq> set (map job_id (queue s'))"
      using inv by (simp add: kS lI ids server_inv_def)
  next
    fix k assume k: "k < length (drivers s')"
    show "fst (drivers s' ! k) < length (queue s') \<and>
        status (queue s' ! fst (drivers s' ! k)) \<noteq> Queued \<and>
        snd (drivers s' ! k) \<noteq> D_AcqResolved None \<and>
        (snd (drivers s' ! k) = D_Creating \<longrightarrow>
           driver_job s' k \<in> keysJ s' \<and> driver_job s' k \<notin> leaveIds s') \<and>
        (unbound_pc (snd (drivers s' ! k)) \<longrightarrow> driver_job s' k \<notin> keysS s')"
    proof (cases "k < length (drivers s)")
      case True
      then show ?thesis using inv nodrv [OF True] dj_old [OF True]
        by (auto simp: server_inv_def dr nth_append q' kS kJ lI)
    next
      case False
      then have "k = length (drivers s)" using k by (simp add: dr)
      then show ?thesis using chk nokey i dj_new
        by (auto simp: dr q' kS kJ lI)
    qed
  next
    fix j assume "j < length (queue s')" "status (queue s' ! j) = Queued"
    then show "job_id (queue s' ! j) \<notin> keysS s' \<union> leaveIds s'"
      using inv by (cases "j = i") (auto simp: q' kS lI server_inv_def)
  next
    fix k j assume "k < length (leaves s')" "leaves s' ! k = L_Released j"
    then show "j \<notin> keysS s'" using inv by (auto simp: rest kS server_inv_def)
  qed
  then show ?thesis by (simp add: s'_def)
qed


lemma server_invD:
  assumes "server_inv s"
  shows "processCallback s"
    "distinct (map job_id (queue s))"
    "distinct (map fst (activeJobs s))"
    "distinct (map fst (activeSessions s))"
    "length (activeJobs s) \<le> maxConcurrentSessions s"
    "keysS s \<subseteq> keysJ s"
    "distinct (map fst (drivers s))"
    "keysS s \<union> leaveIds s \<subseteq> set (map job_id (queue s))"
  using assms unfolding server_inv_def by blast+

lemma server_inv_driver:
  assumes "server_inv s" "k < length (drivers s)"
  shows "fst (drivers s ! k) < length (queue s)"
    "status (queue s ! fst (drivers s ! k)) \<noteq> Queued"
    "snd (drivers s ! k) \<noteq> D_AcqResolved None"
    "snd (drivers s ! k) = D_Creating \<Longrightarrow> driver_job s k \<in> keysJ s"
    "snd (drivers s ! k) = D_Creating \<Longrightarrow> driver_job s k \<notin> leaveIds s"
    "unbound_pc (snd (drivers s ! k)) \<Longrightarrow> driver_job s k \<notin> keysS s"
  using assms unfolding server_inv_def by blast+

lemma server_inv_queued:
  assumes "server_inv s" "i < length (queue s)" "status (queue s ! i) = Queued"
  shows "job_id (queue s ! i) \<notin> keysS s" "job_id (queue s ! i) \<notin> leaveIds s"
  using assms unfolding server_inv_def by blast+

lemma server_inv_released:
  assumes "server_inv s" "k < length (leaves s)" "leaves s ! k = L_Released j"
  shows "j \<notin> keysS s"
  using assms unfolding server_inv_def by blast

lemma driver_jobs_distinct:
  assumes inv: "server_inv s" and k: "k < length (drivers s)" and k': "k' < length (drivers s)"
    and eq: "driver_job s k = driver_job s k'"
  shows "k = k'"
proof -
  have "fst (drivers s ! k) = fst (drivers s ! k')"
    using distinct_ids_eq [OF server_invD(2) [OF inv] server_inv_driver(1) [OF inv k]
        server_inv_driver(1) [OF inv k']] eq
    by (simp add: driver_job_def)
  then have "map fst (drivers s) ! k = map fst (drivers s) ! k'" using k k' by simp
  then show ?thesis using server_invD(7) [OF inv] k k'
    by (simp add: nth_eq_iff_index_eq del: nth_map)
qed

text \<open>a job's record changes, keeping its id, to a status other than queued\<close>
lemma inv_job_update:
  assumes inv: "server_inv s" and i: "i < length (queue s)"
    and id: "job_id j' = job_id (queue s ! i)" and st: "status j' \<noteq> Queued"
  shows "server_inv (s\<lparr>queue := (queue s)[i := j']\<rparr>)"
proof -
  define s' where "s' = s\<lparr>queue := (queue s)[i := j']\<rparr>"
  have ids: "map job_id (queue s') = map job_id (queue s)"
    using i id by (simp add: s'_def map_update list_update_same_conv)
  have jid: "job_id (queue s' ! j) = job_id (queue s ! j)" if "j < length (queue s)" for j
    using that id by (cases "j = i") (simp_all add: s'_def)
  have sets: "keysS s' = keysS s" "leaveIds s' = leaveIds s" "keysJ s' = keysJ s"
    by (simp_all add: keysS_def leaveIds_def keysJ_def s'_def)
  have dr: "drivers s' = drivers s" by (simp add: s'_def)
  have dj: "driver_job s' k = driver_job s k" if "k < length (drivers s)" for k
    using server_inv_driver(1) [OF inv that] by (simp add: driver_job_def dr jid)
  have "server_inv s'"
  proof (rule server_invI)
    show "processCallback s'" "distinct (map fst (activeJobs s'))"
      "distinct (map fst (activeSessions s'))" "length (activeJobs s') \<le> maxConcurrentSessions s'"
      "distinct (map fst (drivers s'))"
      using server_invD [OF inv] by (simp_all add: s'_def)
    show "distinct (map job_id (queue s'))" using server_invD(2) [OF inv] by (simp add: ids)
    show "keysS s' \<subseteq> keysJ s'" using server_invD(6) [OF inv] by (simp add: sets)
    show "keysS s' \<union> leaveIds s' \<subseteq> set (map job_id (queue s'))"
      using server_invD(8) [OF inv] by (simp only: sets ids)
  next
    fix k assume "k < length (drivers s')"
    then have k: "k < length (drivers s)" by (simp add: s'_def)
    have "status (queue s' ! fst (drivers s ! k)) \<noteq> Queued"
      using server_inv_driver(1,2) [OF inv k] st
      by (cases "fst (drivers s ! k) = i") (simp_all add: s'_def)
    then show "fst (drivers s' ! k) < length (queue s') \<and>
        status (queue s' ! fst (drivers s' ! k)) \<noteq> Queued \<and>
        snd (drivers s' ! k) \<noteq> D_AcqResolved None \<and>
        (snd (drivers s' ! k) = D_Creating \<longrightarrow>
           driver_job s' k \<in> keysJ s' \<and> driver_job s' k \<notin> leaveIds s') \<and>
        (unbound_pc (snd (drivers s' ! k)) \<longrightarrow> driver_job s' k \<notin> keysS s')"
      using server_inv_driver [OF inv k] dj [OF k] by (simp add: sets) (simp add: s'_def)
  next
    fix j assume j: "j < length (queue s')" "status (queue s' ! j) = Queued"
    then have "j \<noteq> i" using st i by (auto simp: s'_def)
    then have "status (queue s ! j) = Queued" "j < length (queue s)" using j by (simp_all add: s'_def)
    then show "job_id (queue s' ! j) \<notin> keysS s' \<union> leaveIds s'"
      using server_inv_queued [OF inv, of j] by (simp add: sets jid)
  next
    fix k j assume "k < length (leaves s')" "leaves s' ! k = L_Released j"
    then show "j \<notin> keysS s'" using server_inv_released [OF inv, of k j] by (simp add: sets) (simp add: s'_def)
  qed
  then show ?thesis by (simp add: s'_def)
qed

text \<open>an entry leaves activeJobs\<close>
lemma inv_activeJobs_delete:
  assumes inv: "server_inv s" and nS: "jid \<notin> keysS s"
    and nC: "\<And>k. k < length (drivers s) \<Longrightarrow> snd (drivers s ! k) = D_Creating \<Longrightarrow> driver_job s k \<noteq> jid"
  shows "server_inv (s\<lparr>activeJobs := AList.delete jid (activeJobs s)\<rparr>)"
proof -
  define s' where "s' = s\<lparr>activeJobs := AList.delete jid (activeJobs s)\<rparr>"
  have kJ: "keysJ s' = keysJ s - {jid}"
    using delete_keys [of jid "activeJobs s"] by (simp add: keysJ_def s'_def flip: set_map)
  have sets: "keysS s' = keysS s" "leaveIds s' = leaveIds s"
    by (simp_all add: keysS_def leaveIds_def s'_def)
  have dj: "driver_job s' k = driver_job s k" for k by (simp add: driver_job_def s'_def)
  have "server_inv s'"
  proof (rule server_invI)
    show "processCallback s'" "distinct (map job_id (queue s'))"
      "distinct (map fst (activeSessions s'))" "distinct (map fst (drivers s'))"
      using server_invD [OF inv] by (simp_all add: s'_def)
    show "distinct (map fst (activeJobs s'))"
      using server_invD(3) [OF inv] by (simp add: s'_def distinct_delete)
    show "length (activeJobs s') \<le> maxConcurrentSessions s'"
      using server_invD(5) [OF inv] length_delete_le [of jid "activeJobs s"] by (simp add: s'_def)
    show "keysS s' \<subseteq> keysJ s'" using server_invD(6) [OF inv] nS by (auto simp: sets kJ)
    show "keysS s' \<union> leaveIds s' \<subseteq> set (map job_id (queue s'))"
      using server_invD(8) [OF inv] by (simp add: sets) (simp add: s'_def)
  next
    fix k assume "k < length (drivers s')"
    then have k: "k < length (drivers s)" by (simp add: s'_def)
    show "fst (drivers s' ! k) < length (queue s') \<and>
        status (queue s' ! fst (drivers s' ! k)) \<noteq> Queued \<and>
        snd (drivers s' ! k) \<noteq> D_AcqResolved None \<and>
        (snd (drivers s' ! k) = D_Creating \<longrightarrow>
           driver_job s' k \<in> keysJ s' \<and> driver_job s' k \<notin> leaveIds s') \<and>
        (unbound_pc (snd (drivers s' ! k)) \<longrightarrow> driver_job s' k \<notin> keysS s')"
      using server_inv_driver [OF inv k] nC [OF k] by (simp add: sets kJ dj) (simp add: s'_def)
  next
    fix j assume j: "j < length (queue s')" "status (queue s' ! j) = Queued"
    then show "job_id (queue s' ! j) \<notin> keysS s' \<union> leaveIds s'"
      using server_inv_queued [OF inv, of j] by (simp add: sets) (simp add: s'_def)
  next
    fix k j assume "k < length (leaves s')" "leaves s' ! k = L_Released j"
    then show "j \<notin> keysS s'" using server_inv_released [OF inv, of k j] by (simp add: sets) (simp add: s'_def)
  qed
  then show ?thesis by (simp add: s'_def)
qed

lemma inv_set_pc:
  assumes inv: "server_inv s" and k: "k < length (drivers s)"
    and pc: "pc \<noteq> D_AcqResolved None" "pc \<noteq> D_Creating"
    and ub: "unbound_pc pc \<Longrightarrow> driver_job s k \<notin> keysS s"
  shows "server_inv (set_pc k pc s)"
proof -
  define s' where "s' = set_pc k pc s"
  have dr: "drivers s' = (drivers s)[k := (fst (drivers s ! k), pc)]"
    and flds: "queue s' = queue s" "leaves s' = leaves s" "activeJobs s' = activeJobs s"
      "activeSessions s' = activeSessions s" "maxConcurrentSessions s' = maxConcurrentSessions s"
      "processCallback s' = processCallback s"
    by (simp_all add: s'_def set_pc_def)
  have fsts: "map fst (drivers s') = map fst (drivers s)"
    using k by (simp add: dr map_update list_update_same_conv)
  have fst_eq: "fst (drivers s' ! n) = fst (drivers s ! n)" if "n < length (drivers s)" for n
    using that by (cases "n = k") (simp_all add: dr)
  have sets: "keysS s' = keysS s" "leaveIds s' = leaveIds s" "keysJ s' = keysJ s"
    by (simp_all add: keysS_def leaveIds_def keysJ_def flds)
  have dj: "driver_job s' n = driver_job s n" if "n < length (drivers s)" for n
    by (simp add: driver_job_def flds fst_eq [OF that])
  have "server_inv s'"
  proof (rule server_invI)
    show "processCallback s'" "distinct (map fst (activeJobs s'))" "distinct (map job_id (queue s'))"
      "distinct (map fst (activeSessions s'))" "length (activeJobs s') \<le> maxConcurrentSessions s'"
      using server_invD [OF inv] by (simp_all add: flds)
    show "distinct (map fst (drivers s'))" using server_invD(7) [OF inv] by (simp only: fsts)
    show "keysS s' \<subseteq> keysJ s'" using server_invD(6) [OF inv] by (simp add: sets)
    show "keysS s' \<union> leaveIds s' \<subseteq> set (map job_id (queue s'))"
      using server_invD(8) [OF inv] by (simp only: sets flds)
  next
    fix n assume "n < length (drivers s')"
    then have n: "n < length (drivers s)" by (simp add: dr)
    show "fst (drivers s' ! n) < length (queue s') \<and>
        status (queue s' ! fst (drivers s' ! n)) \<noteq> Queued \<and>
        snd (drivers s' ! n) \<noteq> D_AcqResolved None \<and>
        (snd (drivers s' ! n) = D_Creating \<longrightarrow>
           driver_job s' n \<in> keysJ s' \<and> driver_job s' n \<notin> leaveIds s') \<and>
        (unbound_pc (snd (drivers s' ! n)) \<longrightarrow> driver_job s' n \<notin> keysS s')"
    proof (cases "n = k")
      case True
      then show ?thesis using server_inv_driver(1,2) [OF inv k] pc ub k
        by (simp add: sets dj [OF k] flds fst_eq [OF k]) (simp add: dr)
    next
      case False
      then have "snd (drivers s' ! n) = snd (drivers s ! n)" by (simp add: dr)
      then show ?thesis using server_inv_driver [OF inv n]
        by (simp add: sets dj [OF n] flds fst_eq [OF n])
    qed
  next
    fix j assume j: "j < length (queue s')" "status (queue s' ! j) = Queued"
    then show "job_id (queue s' ! j) \<notin> keysS s' \<union> leaveIds s'"
      using server_inv_queued [OF inv, of j] by (simp add: sets flds)
  next
    fix n j assume "n < length (leaves s')" "leaves s' ! n = L_Released j"
    then show "j \<notin> keysS s'" using server_inv_released [OF inv, of n j] by (simp add: sets flds)
  qed
  then show ?thesis by (simp add: s'_def)
qed

text \<open>the pool deletes a binding\<close>
lemma inv_releaseSession_finish:
  assumes inv: "server_inv s"
  shows "server_inv (releaseSession_finish jid s)"
proof -
  define s' where "s' = releaseSession_finish jid s"
  have kS: "keysS s' = keysS s - {jid}"
    using delete_keys [of jid "activeSessions s"]
    by (simp add: keysS_def s'_def releaseSession_finish_def flip: set_map)
  have flds: "queue s' = queue s" "leaves s' = leaves s" "activeJobs s' = activeJobs s"
      "drivers s' = drivers s" "maxConcurrentSessions s' = maxConcurrentSessions s"
      "processCallback s' = processCallback s"
    by (simp_all add: s'_def releaseSession_finish_def)
  have sets: "leaveIds s' = leaveIds s" "keysJ s' = keysJ s"
    by (simp_all add: leaveIds_def keysJ_def flds)
  have dj: "driver_job s' k = driver_job s k" for k by (simp add: driver_job_def flds)
  have "server_inv s'"
  proof (rule server_invI)
    show "processCallback s'" "distinct (map job_id (queue s'))"
      "distinct (map fst (activeJobs s'))" "distinct (map fst (drivers s'))"
      "length (activeJobs s') \<le> maxConcurrentSessions s'"
      using server_invD [OF inv] by (simp_all add: flds)
    show "distinct (map fst (activeSessions s'))"
      using server_invD(4) [OF inv] by (simp add: s'_def releaseSession_finish_def distinct_delete)
    show "keysS s' \<subseteq> keysJ s'" using server_invD(6) [OF inv] by (auto simp: sets kS)
    show "keysS s' \<union> leaveIds s' \<subseteq> set (map job_id (queue s'))"
      using server_invD(8) [OF inv] by (auto simp: sets kS flds)
  next
    fix k assume "k < length (drivers s')"
    then have k: "k < length (drivers s)" by (simp add: flds)
    show "fst (drivers s' ! k) < length (queue s') \<and>
        status (queue s' ! fst (drivers s' ! k)) \<noteq> Queued \<and>
        snd (drivers s' ! k) \<noteq> D_AcqResolved None \<and>
        (snd (drivers s' ! k) = D_Creating \<longrightarrow>
           driver_job s' k \<in> keysJ s' \<and> driver_job s' k \<notin> leaveIds s') \<and>
        (unbound_pc (snd (drivers s' ! k)) \<longrightarrow> driver_job s' k \<notin> keysS s')"
      using server_inv_driver [OF inv k] by (simp add: sets kS dj flds)
  next
    fix j assume j: "j < length (queue s')" "status (queue s' ! j) = Queued"
    then show "job_id (queue s' ! j) \<notin> keysS s' \<union> leaveIds s'"
      using server_inv_queued [OF inv, of j] by (simp add: sets kS flds)
  next
    fix k j assume "k < length (leaves s')" "leaves s' ! k = L_Released j"
    then show "j \<notin> keysS s'" using server_inv_released [OF inv, of k j] by (simp add: sets kS flds)
  qed
  then show ?thesis by (simp add: s'_def)
qed

lemma keysS_releaseSession_finish: "keysS (releaseSession_finish jid s) = keysS s - {jid}"
  using delete_keys [of jid "activeSessions s"]
  by (simp add: keysS_def releaseSession_finish_def flip: set_map)

text \<open>acquireSession binds the new session and the processor goes on\<close>
lemma inv_bind:
  assumes inv: "server_inv s" and k: "k < length (drivers s)" and pc: "snd (drivers s ! k) = D_Creating"
  shows "server_inv (set_pc k (D_AcqResolved (Some r)) (snd (acquireSession_bind (driver_job s k) s)))"
proof -
  define jid where "jid = driver_job s k"
  define s' where "s' = set_pc k (D_AcqResolved (Some r)) (snd (acquireSession_bind jid s))"
  have dr: "drivers s' = (drivers s)[k := (fst (drivers s ! k), D_AcqResolved (Some r))]"
    and aS: "activeSessions s' = AList.update jid (length (sessions s)) (activeSessions s)"
    and flds: "queue s' = queue s" "leaves s' = leaves s" "activeJobs s' = activeJobs s"
      "maxConcurrentSessions s' = maxConcurrentSessions s"
      "processCallback s' = processCallback s"
    by (simp_all add: s'_def set_pc_def acquireSession_bind_def Let_def)
  have fsts: "map fst (drivers s') = map fst (drivers s)"
    using k by (simp add: dr map_update list_update_same_conv)
  have fst_eq: "fst (drivers s' ! n) = fst (drivers s ! n)" if "n < length (drivers s)" for n
    using that by (cases "n = k") (simp_all add: dr)
  have sets: "keysS s' = insert jid (keysS s)" "leaveIds s' = leaveIds s" "keysJ s' = keysJ s"
    by (simp_all add: keysS_def leaveIds_def keysJ_def flds aS)
  have dj: "driver_job s' n = driver_job s n" if "n < length (drivers s)" for n
    by (simp add: driver_job_def flds fst_eq [OF that])
  have jJ: "jid \<in> keysJ s" and jL: "jid \<notin> leaveIds s"
    using server_inv_driver(4,5) [OF inv k pc] by (simp_all add: jid_def)
  have jq: "jid \<in> set (map job_id (queue s))"
    using server_inv_driver(1) [OF inv k] by (auto simp: jid_def driver_job_def)
  have "server_inv s'"
  proof (rule server_invI)
    show "processCallback s'" "distinct (map fst (activeJobs s'))" "distinct (map job_id (queue s'))"
      "length (activeJobs s') \<le> maxConcurrentSessions s'"
      using server_invD [OF inv] by (simp_all add: flds)
    show "distinct (map fst (activeSessions s'))"
      using server_invD(4) [OF inv] by (simp add: aS distinct_update)
    show "distinct (map fst (drivers s'))" using server_invD(7) [OF inv] by (simp only: fsts)
    show "keysS s' \<subseteq> keysJ s'" using server_invD(6) [OF inv] jJ by (simp add: sets)
    show "keysS s' \<union> leaveIds s' \<subseteq> set (map job_id (queue s'))"
      using server_invD(8) [OF inv] jq by (simp add: sets flds)
  next
    fix n assume "n < length (drivers s')"
    then have n: "n < length (drivers s)" by (simp add: dr)
    show "fst (drivers s' ! n) < length (queue s') \<and>
        status (queue s' ! fst (drivers s' ! n)) \<noteq> Queued \<and>
        snd (drivers s' ! n) \<noteq> D_AcqResolved None \<and>
        (snd (drivers s' ! n) = D_Creating \<longrightarrow>
           driver_job s' n \<in> keysJ s' \<and> driver_job s' n \<notin> leaveIds s') \<and>
        (unbound_pc (snd (drivers s' ! n)) \<longrightarrow> driver_job s' n \<notin> keysS s')"
    proof (cases "n = k")
      case True
      then show ?thesis using server_inv_driver(1,2) [OF inv k] k
        by (simp add: sets dj [OF k] flds fst_eq [OF k]) (simp add: dr)
    next
      case False
      then have "snd (drivers s' ! n) = snd (drivers s ! n)" by (simp add: dr)
      moreover have "driver_job s n \<noteq> jid"
        using driver_jobs_distinct [OF inv n k] False by (auto simp: jid_def)
      ultimately show ?thesis using server_inv_driver [OF inv n]
        by (simp add: sets dj [OF n] flds fst_eq [OF n])
    qed
  next
    fix j assume j: "j < length (queue s')" "status (queue s' ! j) = Queued"
    then have j': "j < length (queue s)" "status (queue s ! j) = Queued" by (simp_all add: flds)
    have "job_id (queue s ! j) \<noteq> jid"
    proof
      assume "job_id (queue s ! j) = jid"
      then have "j = fst (drivers s ! k)"
        using distinct_ids_eq [OF server_invD(2) [OF inv] j'(1) server_inv_driver(1) [OF inv k]]
        by (simp add: jid_def driver_job_def)
      then show False using server_inv_driver(2) [OF inv k] j'(2) by simp
    qed
    then show "job_id (queue s' ! j) \<notin> keysS s' \<union> leaveIds s'"
      using server_inv_queued [OF inv j'] by (simp add: sets flds)
  next
    fix n j assume n: "n < length (leaves s')" "leaves s' ! n = L_Released j"
    then have "j \<in> leaveIds s" by (auto simp: leaveIds_def flds)
    then have "j \<noteq> jid" using jL by auto
    then show "j \<notin> keysS s'" using server_inv_released [OF inv, of n j] n by (simp add: sets flds)
  qed
  then show ?thesis by (simp add: s'_def jid_def)
qed

lemma leaveIds_append:
  "leaveIds (s\<lparr>leaves := leaves s @ [pc]\<rparr>) =
     leaveIds s \<union> (case leave_job pc of None \<Rightarrow> {} | Some j \<Rightarrow> {j})"
proof (intro set_eqI iffI)
  fix j assume "j \<in> leaveIds (s\<lparr>leaves := leaves s @ [pc]\<rparr>)"
  then obtain k where k: "k < Suc (length (leaves s))" "leave_job ((leaves s @ [pc]) ! k) = Some j"
    by (auto simp: leaveIds_def)
  show "j \<in> leaveIds s \<union> (case leave_job pc of None \<Rightarrow> {} | Some j \<Rightarrow> {j})"
  proof (cases "k < length (leaves s)")
    case True
    then have "leave_job (leaves s ! k) = Some j" using k(2) by (simp add: nth_append)
    then show ?thesis using True unfolding leaveIds_def by blast
  next
    case False
    then have "k = length (leaves s)" using k(1) by simp
    then have "leave_job pc = Some j" using k(2) by simp
    then show ?thesis by simp
  qed
next
  fix j assume "j \<in> leaveIds s \<union> (case leave_job pc of None \<Rightarrow> {} | Some j \<Rightarrow> {j})"
  then consider "j \<in> leaveIds s" | "leave_job pc = Some j"
    by (cases "leave_job pc") auto
  then show "j \<in> leaveIds (s\<lparr>leaves := leaves s @ [pc]\<rparr>)"
  proof cases
    case 1
    then obtain k where "k < length (leaves s)" "leave_job (leaves s ! k) = Some j"
      unfolding leaveIds_def by blast
    then have "k < length (leaves s @ [pc]) \<and> leave_job ((leaves s @ [pc]) ! k) = Some j"
      by (simp add: nth_append)
    then show ?thesis unfolding leaveIds_def by auto
  next
    case 2
    then have "length (leaves s) < length (leaves s @ [pc]) \<and>
      leave_job ((leaves s @ [pc]) ! length (leaves s)) = Some j" by simp
    then show ?thesis unfolding leaveIds_def by (simp del: length_append nth_append_length) blast
  qed
qed

lemma leaveIds_set_leave:
  assumes "k < length (leaves s)" "leave_job pc = None \<or> leave_job pc = leave_job (leaves s ! k)"
  shows "leaveIds (set_leave k pc s) \<subseteq> leaveIds s"
proof
  fix j assume "j \<in> leaveIds (set_leave k pc s)"
  then obtain n where n: "n < length (leaves s)" "leave_job ((leaves s)[k := pc] ! n) = Some j"
    unfolding leaveIds_def set_leave_def by auto
  show "j \<in> leaveIds s"
  proof (cases "n = k")
    case True
    then have "leave_job pc = Some j" using n by simp
    then have "leave_job (leaves s ! k) = Some j" using assms(2) by auto
    then show ?thesis using assms(1) unfolding leaveIds_def by blast
  next
    case False
    then have "leave_job (leaves s ! n) = Some j" using n by simp
    then show ?thesis using n(1) unfolding leaveIds_def by blast
  qed
qed

text \<open>a new leave request for a job that has a session\<close>

lemma inv_leaves_append:
  assumes inv: "server_inv s" and pc: "\<And>j. leave_job pc = Some j \<Longrightarrow> j \<in> keysS s"
    and nr: "\<And>j. pc \<noteq> L_Released j"
  shows "server_inv (s\<lparr>leaves := leaves s @ [pc]\<rparr>)"
proof -
  define s' where "s' = s\<lparr>leaves := leaves s @ [pc]\<rparr>"
  have lv: "leaves s' = leaves s @ [pc]"
    and flds: "queue s' = queue s" "drivers s' = drivers s" "activeJobs s' = activeJobs s"
      "activeSessions s' = activeSessions s" "maxConcurrentSessions s' = maxConcurrentSessions s"
      "processCallback s' = processCallback s"
    by (simp_all add: s'_def)
  have sets: "keysS s' = keysS s" "keysJ s' = keysJ s"
    by (simp_all add: keysS_def keysJ_def flds)
  have lI: "leaveIds s' \<subseteq> leaveIds s \<union> keysS s"
    using pc by (auto simp: s'_def leaveIds_append split: option.splits)
  have dj: "driver_job s' n = driver_job s n" for n by (simp add: driver_job_def flds)
  have "server_inv s'"
  proof (rule server_invI)
    show "processCallback s'" "distinct (map fst (activeJobs s'))" "distinct (map job_id (queue s'))"
      "distinct (map fst (activeSessions s'))" "length (activeJobs s') \<le> maxConcurrentSessions s'"
      "distinct (map fst (drivers s'))"
      using server_invD [OF inv] by (simp_all add: flds)
    show "keysS s' \<subseteq> keysJ s'" using server_invD(6) [OF inv] by (simp add: sets)
    show "keysS s' \<union> leaveIds s' \<subseteq> set (map job_id (queue s'))"
      using server_invD(8) [OF inv] lI by (auto simp: sets flds)
  next
    fix n assume "n < length (drivers s')"
    then have n: "n < length (drivers s)" by (simp add: flds)
    show "fst (drivers s' ! n) < length (queue s') \<and>
        status (queue s' ! fst (drivers s' ! n)) \<noteq> Queued \<and>
        snd (drivers s' ! n) \<noteq> D_AcqResolved None \<and>
        (snd (drivers s' ! n) = D_Creating \<longrightarrow>
           driver_job s' n \<in> keysJ s' \<and> driver_job s' n \<notin> leaveIds s') \<and>
        (unbound_pc (snd (drivers s' ! n)) \<longrightarrow> driver_job s' n \<notin> keysS s')"
      using server_inv_driver [OF inv n] lI by (auto simp: sets dj flds)
  next
    fix j assume j: "j < length (queue s')" "status (queue s' ! j) = Queued"
    then show "job_id (queue s' ! j) \<notin> keysS s' \<union> leaveIds s'"
      using server_inv_queued [OF inv, of j] lI by (auto simp: sets flds)
  next
    fix n j assume n: "n < length (leaves s')" "leaves s' ! n = L_Released j"
    then have "n < length (leaves s)" using nr by (cases "n = length (leaves s)") (auto simp: lv)
    then show "j \<notin> keysS s'" using server_inv_released [OF inv, of n j] n by (simp add: sets lv nth_append)
  qed
  then show ?thesis by (simp add: s'_def)
qed

text \<open>a leave request moves on\<close>

lemma inv_set_leave:
  assumes inv: "server_inv s" and k: "k < length (leaves s)"
    and pc: "leave_job pc = None \<or> leave_job pc = leave_job (leaves s ! k)"
    and rel: "\<And>j. pc = L_Released j \<Longrightarrow> j \<notin> keysS s"
  shows "server_inv (set_leave k pc s)"
proof -
  define s' where "s' = set_leave k pc s"
  have lv: "leaves s' = (leaves s)[k := pc]"
    and flds: "queue s' = queue s" "drivers s' = drivers s" "activeJobs s' = activeJobs s"
      "activeSessions s' = activeSessions s" "maxConcurrentSessions s' = maxConcurrentSessions s"
      "processCallback s' = processCallback s"
    by (simp_all add: s'_def set_leave_def)
  have sets: "keysS s' = keysS s" "keysJ s' = keysJ s"
    by (simp_all add: keysS_def keysJ_def flds)
  have lI: "leaveIds s' \<subseteq> leaveIds s"
    unfolding s'_def by (rule leaveIds_set_leave [OF k pc])
  have dj: "driver_job s' n = driver_job s n" for n by (simp add: driver_job_def flds)
  have "server_inv s'"
  proof (rule server_invI)
    show "processCallback s'" "distinct (map fst (activeJobs s'))" "distinct (map job_id (queue s'))"
      "distinct (map fst (activeSessions s'))" "length (activeJobs s') \<le> maxConcurrentSessions s'"
      "distinct (map fst (drivers s'))"
      using server_invD [OF inv] by (simp_all add: flds)
    show "keysS s' \<subseteq> keysJ s'" using server_invD(6) [OF inv] by (simp add: sets)
    show "keysS s' \<union> leaveIds s' \<subseteq> set (map job_id (queue s'))"
      using server_invD(8) [OF inv] lI by (auto simp: sets flds)
  next
    fix n assume "n < length (drivers s')"
    then have n: "n < length (drivers s)" by (simp add: flds)
    show "fst (drivers s' ! n) < length (queue s') \<and>
        status (queue s' ! fst (drivers s' ! n)) \<noteq> Queued \<and>
        snd (drivers s' ! n) \<noteq> D_AcqResolved None \<and>
        (snd (drivers s' ! n) = D_Creating \<longrightarrow>
           driver_job s' n \<in> keysJ s' \<and> driver_job s' n \<notin> leaveIds s') \<and>
        (unbound_pc (snd (drivers s' ! n)) \<longrightarrow> driver_job s' n \<notin> keysS s')"
      using server_inv_driver [OF inv n] lI by (auto simp: sets dj flds)
  next
    fix j assume j: "j < length (queue s')" "status (queue s' ! j) = Queued"
    then show "job_id (queue s' ! j) \<notin> keysS s' \<union> leaveIds s'"
      using server_inv_queued [OF inv, of j] lI by (auto simp: sets flds)
  next
    fix n j assume n: "n < length (leaves s')" "leaves s' ! n = L_Released j"
    show "j \<notin> keysS s'"
    proof (cases "n = k")
      case True
      then show ?thesis using n k rel by (simp add: lv sets)
    next
      case False
      then show ?thesis using server_inv_released [OF inv, of n j] n by (simp add: sets lv)
    qed
  qed
  then show ?thesis by (simp add: s'_def)
qed

text \<open>a new job with a fresh id is appended\<close>

lemma inv_queue_append:
  assumes inv: "server_inv s" and fresh: "job_id job \<notin> set (map job_id (queue s))"
  shows "server_inv (s\<lparr>queue := queue s @ [job]\<rparr>)"
proof -
  define s' where "s' = s\<lparr>queue := queue s @ [job]\<rparr>"
  have q: "queue s' = queue s @ [job]"
    and flds: "leaves s' = leaves s" "drivers s' = drivers s" "activeJobs s' = activeJobs s"
      "activeSessions s' = activeSessions s" "maxConcurrentSessions s' = maxConcurrentSessions s"
      "processCallback s' = processCallback s"
    by (simp_all add: s'_def)
  have sets: "keysS s' = keysS s" "keysJ s' = keysJ s" "leaveIds s' = leaveIds s"
    by (simp_all add: keysS_def keysJ_def leaveIds_def flds)
  have dj: "driver_job s' n = driver_job s n" if "n < length (drivers s)" for n
    using server_inv_driver(1) [OF inv that] by (simp add: driver_job_def flds q nth_append)
  have nk: "job_id job \<notin> keysS s \<union> leaveIds s" using server_invD(8) [OF inv] fresh by blast
  have "server_inv s'"
  proof (rule server_invI)
    show "processCallback s'" "distinct (map fst (activeJobs s'))"
      "distinct (map fst (activeSessions s'))" "length (activeJobs s') \<le> maxConcurrentSessions s'"
      "distinct (map fst (drivers s'))"
      using server_invD [OF inv] by (simp_all add: flds)
    show "distinct (map job_id (queue s'))" using server_invD(2) [OF inv] fresh by (simp add: q)
    show "keysS s' \<subseteq> keysJ s'" using server_invD(6) [OF inv] by (simp add: sets)
    show "keysS s' \<union> leaveIds s' \<subseteq> set (map job_id (queue s'))"
      using server_invD(8) [OF inv] by (auto simp: sets q)
  next
    fix n assume "n < length (drivers s')"
    then have n: "n < length (drivers s)" by (simp add: flds)
    show "fst (drivers s' ! n) < length (queue s') \<and>
        status (queue s' ! fst (drivers s' ! n)) \<noteq> Queued \<and>
        snd (drivers s' ! n) \<noteq> D_AcqResolved None \<and>
        (snd (drivers s' ! n) = D_Creating \<longrightarrow>
           driver_job s' n \<in> keysJ s' \<and> driver_job s' n \<notin> leaveIds s') \<and>
        (unbound_pc (snd (drivers s' ! n)) \<longrightarrow> driver_job s' n \<notin> keysS s')"
      using server_inv_driver [OF inv n] by (simp add: sets dj [OF n] flds) (simp add: q nth_append)
  next
    fix j assume j: "j < length (queue s')" "status (queue s' ! j) = Queued"
    show "job_id (queue s' ! j) \<notin> keysS s' \<union> leaveIds s'"
    proof (cases "j < length (queue s)")
      case True
      then show ?thesis using server_inv_queued [OF inv, of j] j by (simp add: sets q nth_append)
    next
      case False
      then have "j = length (queue s)" using j by (simp add: q)
      then show ?thesis using nk by (simp add: sets q)
    qed
  next
    fix n j assume n: "n < length (leaves s')" "leaves s' ! n = L_Released j"
    then show "j \<notin> keysS s'" using server_inv_released [OF inv, of n j] by (simp add: sets flds)
  qed
  then show ?thesis by (simp add: s'_def)
qed

lemma queue_processJob_other:
  "j \<noteq> i \<Longrightarrow> queue (processJob now i s) ! j = queue s ! j"
  by (simp add: processJob_def Let_def)

lemma inv_dispatch:
  assumes "server_inv s" "distinct xs"
    "\<And>i. i \<in> set xs \<Longrightarrow> i < length (queue s) \<and> status (queue s ! i) = Queued"
  shows "server_inv (dispatch now xs s)"
  using assms
proof (induction xs arbitrary: s)
  case Nil
  then show ?case by simp
next
  case (Cons x xs)
  show ?case
  proof (cases "maxConcurrentSessions s \<le> length (activeJobs s)")
    case True
    then show ?thesis using Cons.prems(1) by simp
  next
    case False
    have x: "x < length (queue s)" "status (queue s ! x) = Queued" using Cons.prems(3) by simp_all
    have inv1: "server_inv (processJob now x s)"
      using inv_processJob [OF Cons.prems(1) x] False by simp
    have "server_inv (dispatch now xs (processJob now x s))"
    proof (rule Cons.IH [OF inv1])
      show "distinct xs" using Cons.prems(2) by simp
      fix i assume i: "i \<in> set xs"
      then have "i \<noteq> x" using Cons.prems(2) by auto
      then show "i < length (queue (processJob now x s)) \<and> status (queue (processJob now x s) ! i) = Queued"
        using Cons.prems(3) [of i] i by (simp add: queue_processJob_other)
    qed
    then show ?thesis using False by simp
  qed
qed

lemma inv_processNext:
  assumes "server_inv s" shows "server_inv (processNext now s)"
proof -
  have "server_inv (dispatch now (readyJobs now s) s)"
    by (rule inv_dispatch [OF assms]) (auto simp: readyJobs_def isReady_def)
  then show ?thesis using assms by (simp add: processNext_def scheduleUpcomingJobs_def)
qed

lemma findJob_Some:
  "findJob jid q = Some i \<Longrightarrow> i < length q \<and> job_id (q ! i) = jid"
proof (induction q arbitrary: i)
  case Nil
  then show ?case by simp
next
  case (Cons a q)
  then show ?case by (auto split: if_splits)
qed

lemma sessions_only_frame [simp]:
  "queue (cleanup_begin r s) = queue s" "activeJobs (cleanup_begin r s) = activeJobs s"
  "activeSessions (cleanup_begin r s) = activeSessions s" "drivers (cleanup_begin r s) = drivers s"
  "leaves (cleanup_begin r s) = leaves s"
  "queue (startRecording_finish r out s) = queue s" "activeJobs (startRecording_finish r out s) = activeJobs s"
  "activeSessions (startRecording_finish r out s) = activeSessions s" "drivers (startRecording_finish r out s) = drivers s"
  "leaves (startRecording_finish r out s) = leaves s"
  "queue (stopRecording_finish r out s) = queue s" "activeJobs (stopRecording_finish r out s) = activeJobs s"
  "activeSessions (stopRecording_finish r out s) = activeSessions s" "drivers (stopRecording_finish r out s) = drivers s"
  "leaves (stopRecording_finish r out s) = leaves s"
  by (simp_all add: cleanup_begin_def startRecording_finish_def stopRecording_finish_def
      split: await_result.splits bool.splits)

lemma sessions_only_inv [simp]:
  "server_inv (cleanup_begin r s) = server_inv s"
  "server_inv (startRecording_finish r out s) = server_inv s"
  "server_inv (stopRecording_finish r out s) = server_inv s"
  by (simp_all add: cleanup_begin_def startRecording_finish_def stopRecording_finish_def
      split: await_result.splits bool.splits)

lemma sessions_only_sets [simp]:
  "keysS (cleanup_begin r s) = keysS s" "driver_job (cleanup_begin r s) k = driver_job s k"
  "keysS (startRecording_finish r out s) = keysS s"
  "keysS (stopRecording_finish r out s) = keysS s"
  by (simp_all add: keysS_def driver_job_def)

lemma inv_processJob_catch:
  assumes inv: "server_inv s" and k: "k < length (drivers s)"
    and ub: "unbound_pc (snd (drivers s ! k))" and nc: "snd (drivers s ! k) \<noteq> D_Creating"
  shows "server_inv (processJob_catch k msg now s)"
proof -
  define i where "i = fst (drivers s ! k)"
  define jid where "jid = job_id (queue s ! i)"
  define s1 where "s1 = s\<lparr>queue := (queue s)[i := (queue s ! i)\<lparr>status := Failed, error := Some msg,
                                           completedAt := Some now\<rparr>]\<rparr>"
  define s2 where "s2 = s1\<lparr>activeJobs := AList.delete jid (activeJobs s1)\<rparr>"
  define s3 where "s3 = set_pc k D_Failed s2"
  have i: "i < length (queue s)" using server_inv_driver(1) [OF inv k] by (simp add: i_def)
  have jid: "jid = driver_job s k" by (simp add: jid_def i_def driver_job_def)
  have inv1: "server_inv s1" unfolding s1_def by (rule inv_job_update [OF inv i]) simp_all
  have dj1: "driver_job s1 n = driver_job s n" if "n < length (drivers s)" for n
  proof -
    have "job_id (queue s1 ! fst (drivers s ! n)) = job_id (queue s ! fst (drivers s ! n))"
      using server_inv_driver(1) [OF inv that]
      by (cases "fst (drivers s ! n) = i") (simp_all add: s1_def)
    then show ?thesis by (simp add: driver_job_def) (simp add: s1_def)
  qed
  have inv2: "server_inv s2" unfolding s2_def
  proof (rule inv_activeJobs_delete [OF inv1])
    show "jid \<notin> keysS s1" using server_inv_driver(6) [OF inv k ub] by (simp add: jid keysS_def s1_def)
    fix n assume n: "n < length (drivers s1)" "snd (drivers s1 ! n) = D_Creating"
    then have n': "n < length (drivers s)" "snd (drivers s ! n) = D_Creating" by (simp_all add: s1_def)
    then have "n \<noteq> k" using nc by auto
    then have "driver_job s n \<noteq> driver_job s k" using driver_jobs_distinct [OF inv n'(1) k] by auto
    then show "driver_job s1 n \<noteq> jid" by (simp add: dj1 [OF n'(1)] jid)
  qed
  have k2: "k < length (drivers s2)" using k by (simp add: s2_def s1_def)
  have inv3: "server_inv s3" unfolding s3_def by (rule inv_set_pc [OF inv2 k2]) simp_all
  have "processJob_catch k msg now s = processNext now s3"
    by (simp add: processJob_catch_def Let_def s3_def s2_def s1_def set_pc_def i_def jid_def)
  then show ?thesis using inv_processNext [OF inv3] by simp
qed

lemma inv_completeJob:
  assumes inv: "server_inv s" and nS: "jid \<notin> keysS s" and lv: "jid \<in> leaveIds s"
  shows "server_inv (completeJob jid err now s)"
proof (cases "getJob jid s")
  case None
  then show ?thesis using inv by (simp add: completeJob_def)
next
  case (Some i)
  then have i: "i < length (queue s)" "job_id (queue s ! i) = jid"
    using findJob_Some [of jid "queue s" i] by (simp_all add: getJob_def)
  define job1 where "job1 = (if err \<noteq> None \<and> err \<noteq> Some []
                      then (queue s ! i)\<lparr>status := Failed, error := err\<rparr>
                      else (queue s ! i)\<lparr>status := Completed\<rparr>)"
  define s1 where "s1 = s\<lparr>queue := (queue s)[i := job1\<lparr>completedAt := Some now\<rparr>]\<rparr>"
  define s2 where "s2 = s1\<lparr>activeJobs := AList.delete jid (activeJobs s1)\<rparr>"
  have inv1: "server_inv s1" unfolding s1_def
    by (rule inv_job_update [OF inv i(1)]) (simp_all add: job1_def)
  have dj1: "driver_job s1 n = driver_job s n" if "n < length (drivers s)" for n
  proof -
    have "job_id (queue s1 ! fst (drivers s ! n)) = job_id (queue s ! fst (drivers s ! n))"
      using server_inv_driver(1) [OF inv that]
      by (cases "fst (drivers s ! n) = i") (simp_all add: s1_def job1_def)
    then show ?thesis by (simp add: driver_job_def) (simp add: s1_def)
  qed
  have inv2: "server_inv s2" unfolding s2_def
  proof (rule inv_activeJobs_delete [OF inv1])
    show "jid \<notin> keysS s1" using nS by (simp add: keysS_def s1_def)
    fix n assume n: "n < length (drivers s1)" "snd (drivers s1 ! n) = D_Creating"
    then have n': "n < length (drivers s)" "snd (drivers s ! n) = D_Creating" by (simp_all add: s1_def)
    then have "driver_job s n \<notin> leaveIds s" using server_inv_driver(5) [OF inv] by blast
    then show "driver_job s1 n \<noteq> jid" using lv by (auto simp: dj1 [OF n'(1)])
  qed
  have "completeJob jid err now s = processNext now s2"
    using Some by (simp add: completeJob_def Let_def s2_def s1_def job1_def)
  then show ?thesis using inv_processNext [OF inv2] by simp
qed

lemma inv_updateJobStatus:
  assumes inv: "server_inv s" and st: "st \<noteq> Queued"
  shows "server_inv (updateJobStatus jid st s)"
proof (cases "getJob jid s")
  case None
  then show ?thesis using inv by (simp add: updateJobStatus_def)
next
  case (Some i)
  then have i: "i < length (queue s)"
    using findJob_Some [of jid "queue s" i] by (simp_all add: getJob_def)
  show ?thesis using Some inv_job_update [OF inv i, of "(queue s ! i)\<lparr>status := st\<rparr>"] st
    by (simp add: updateJobStatus_def)
qed

lemma updateJobStatus_frame [simp]:
  "activeJobs (updateJobStatus jid st s) = activeJobs s"
  "activeSessions (updateJobStatus jid st s) = activeSessions s"
  "drivers (updateJobStatus jid st s) = drivers s"
  "leaves (updateJobStatus jid st s) = leaves s"
  "sessions (updateJobStatus jid st s) = sessions s"
  "length (queue (updateJobStatus jid st s)) = length (queue s)"
  by (simp_all add: updateJobStatus_def split: option.splits)

lemma releaseSession_finish_frame [simp]:
  "queue (releaseSession_finish jid s) = queue s" "activeJobs (releaseSession_finish jid s) = activeJobs s"
  "drivers (releaseSession_finish jid s) = drivers s" "leaves (releaseSession_finish jid s) = leaves s"
  "sessions (releaseSession_finish jid s) = sessions s"
  "driver_job (releaseSession_finish jid s) k = driver_job s k"
  by (simp_all add: releaseSession_finish_def driver_job_def)

lemma inv_set_pc_bound:
  assumes "server_inv s" "k < length (drivers s)" "\<not> unbound_pc pc"
  shows "server_inv (set_pc k pc s)"
  using assms by (intro inv_set_pc) auto

lemma inv_inner_catch:
  assumes inv: "server_inv s" and k: "k < length (drivers s)"
  shows "server_inv (inner_catch k msg s)"
proof (cases "map_of (activeSessions s) (driver_job s k)")
  case None
  then have "driver_job s k \<notin> keysS s" by (simp add: keysS_def map_of_eq_None_iff)
  then have "server_inv (set_pc k (D_Released msg) s)"
    by (intro inv_set_pc [OF inv k]) simp_all
  then show ?thesis using None
    by (simp add: inner_catch_def releaseSession_begin_def Let_def driver_job_def)
next
  case (Some r)
  have "server_inv (set_pc k (D_Cleanup msg) (cleanup_begin r s))"
    using inv k by (intro inv_set_pc) simp_all
  then show ?thesis using Some
    by (simp add: inner_catch_def releaseSession_begin_def Let_def driver_job_def)
qed

lemma inv_driver_step:
  assumes inv: "server_inv s" and k: "k < length (drivers s)"
  shows "server_inv (driver_step k out now s)"
proof (cases "snd (drivers s ! k)")
  case (D_AcqRejected msg)
  then show ?thesis using inv_processJob_catch [OF inv k]
    by (simp add: driver_step_def Let_def)
next
  case (D_AcqResolved ro)
  show ?thesis
  proof (cases ro)
    case None
    then show ?thesis using D_AcqResolved inv_processJob_catch [OF inv k]
      by (simp add: driver_step_def Let_def)
  next
    case (Some r)
    then show ?thesis using D_AcqResolved inv_set_pc_bound [OF inv k]
      by (simp add: driver_step_def Let_def)
  qed
next
  case D_Creating
  show ?thesis
  proof (cases out)
    case (Resolve b)
    have "server_inv (set_pc k (D_AcqResolved (Some (fst (acquireSession_bind (driver_job s k) s))))
            (snd (acquireSession_bind (driver_job s k) s)))"
      by (rule inv_bind [OF inv k D_Creating])
    then show ?thesis using D_Creating Resolve
      by (simp add: driver_step_def Let_def driver_job_def split_beta)
  next
    case (Reject msg)
    have "driver_job s k \<notin> keysS s" using server_inv_driver(6) [OF inv k] D_Creating by simp
    then have "server_inv (set_pc k (D_AcqRejected msg) s)"
      by (intro inv_set_pc [OF inv k]) simp_all
    then show ?thesis using D_Creating Reject by (simp add: driver_step_def Let_def)
  qed
next
  case (D_Joining r)
  then show ?thesis using inv_set_pc_bound [OF inv k] inv_inner_catch [OF inv k]
    by (cases out) (simp_all add: driver_step_def Let_def)
next
  case (D_Saving r)
  show ?thesis
  proof (cases out)
    case (Resolve b)
    define s1 where "s1 = updateJobStatus (job_id (queue s ! fst (drivers s ! k))) InMeeting s"
    have inv1: "server_inv s1" unfolding s1_def by (rule inv_updateJobStatus [OF inv]) simp
    have k1: "k < length (drivers s1)" using k by (simp add: s1_def)
    have "server_inv (set_pc k (if startRecording (queue s1 ! fst (drivers s ! k)) then D_Stabilizing r
                                else D_Done) s1)"
      by (rule inv_set_pc_bound [OF inv1 k1]) simp
    then show ?thesis using D_Saving Resolve
      by (simp add: driver_step_def Let_def s1_def)
  next
    case (Reject msg)
    then show ?thesis using D_Saving inv_inner_catch [OF inv k]
      by (simp add: driver_step_def Let_def)
  qed
next
  case (D_Stabilizing r)
  then show ?thesis using inv_set_pc_bound [OF inv k]
    by (simp add: driver_step_def Let_def)
next
  case (D_Recording r already)
  have "server_inv (set_pc k D_Done (startRecording_finish r out s))"
    using inv k by (intro inv_set_pc) simp_all
  then show ?thesis using D_Recording inv_set_pc_bound [OF inv k, of D_Done]
    by (simp add: driver_step_def Let_def)
next
  case (D_Throwing msg)
  then show ?thesis using inv_inner_catch [OF inv k]
    by (simp add: driver_step_def Let_def)
next
  case (D_Cleanup msg)
  define s1 where "s1 = releaseSession_finish (driver_job s k) s"
  have inv1: "server_inv s1" unfolding s1_def by (rule inv_releaseSession_finish [OF inv])
  have k1: "k < length (drivers s1)" using k by (simp add: s1_def)
  have "server_inv (set_pc k (D_Released msg) s1)"
    by (rule inv_set_pc [OF inv1 k1]) (simp_all add: s1_def keysS_releaseSession_finish)
  then show ?thesis using D_Cleanup
    by (simp add: driver_step_def Let_def s1_def driver_job_def)
next
  case (D_Released msg)
  then show ?thesis using inv_processJob_catch [OF inv k]
    by (simp add: driver_step_def Let_def)
next
  case D_Done
  then show ?thesis using inv by (simp add: driver_step_def Let_def)
next
  case D_Failed
  then show ?thesis using inv by (simp add: driver_step_def Let_def)
qed

lemma inv_leave_request:
  assumes inv: "server_inv s"
  shows "server_inv (leave_request jid s)"
proof (cases "map_of (activeSessions s) jid")
  case None
  then show ?thesis using inv by (simp add: leave_request_def)
next
  case (Some r)
  then have "jid \<in> keysS s" by (simp add: keysS_def map_of_Some_key)
  then have "server_inv (s\<lparr>leaves := leaves s @
              [if isRecording (sessions s ! r)
               then (if isActive (sessions s ! r) then L_Stopping jid r else L_Done)
               else L_Leaving jid (\<not> isActive (sessions s ! r))]\<rparr>)"
    by (intro inv_leaves_append [OF inv]) (auto split: if_splits)
  then show ?thesis using Some by (simp add: leave_request_def)
qed

lemma set_leave_frame [simp]:
  "keysS (set_leave k pc s) = keysS s" "queue (set_leave k pc s) = queue s"
  "activeSessions (set_leave k pc s) = activeSessions s" "activeJobs (set_leave k pc s) = activeJobs s"
  "length (leaves (set_leave k pc s)) = length (leaves s)"
  by (simp_all add: set_leave_def keysS_def)

lemma inv_leave_step:
  assumes inv: "server_inv s" and k: "k < length (leaves s)"
  shows "server_inv (leave_step k out now s)"
proof (cases "leaves s ! k")
  case (L_Stopping jid r)
  have "server_inv (set_leave k (L_Leaving jid (\<not> isActive (sessions s ! r))) (stopRecording_finish r out s))"
    using inv k L_Stopping by (intro inv_set_leave) simp_all
  then show ?thesis using L_Stopping by (simp add: leave_step_def)
next
  case (L_Leaving jid returned)
  show ?thesis
  proof (cases "if returned then Resolve True else out")
    case (Reject msg)
    have "server_inv (set_leave k L_Done s)" by (rule inv_set_leave [OF inv k]) simp_all
    then show ?thesis using L_Leaving Reject by (simp add: leave_step_def)
  next
    case (Resolve left)
    show ?thesis
    proof (cases "map_of (activeSessions s) jid")
      case None
      then have "jid \<notin> keysS s" by (simp add: keysS_def map_of_eq_None_iff)
      then have "server_inv (set_leave k (L_Released jid) s)"
        using L_Leaving by (intro inv_set_leave [OF inv k]) simp_all
      then show ?thesis using L_Leaving Resolve None
        by (simp add: leave_step_def releaseSession_begin_def)
    next
      case (Some r)
      have "server_inv (set_leave k (L_Cleanup jid) (cleanup_begin r s))"
        using inv k L_Leaving by (intro inv_set_leave) simp_all
      then show ?thesis using L_Leaving Resolve Some
        by (simp add: leave_step_def releaseSession_begin_def)
    qed
  qed
next
  case (L_Cleanup jid)
  define s1 where "s1 = releaseSession_finish jid s"
  have inv1: "server_inv s1" unfolding s1_def by (rule inv_releaseSession_finish [OF inv])
  have k1: "k < length (leaves s1)" using k by (simp add: s1_def)
  have "server_inv (set_leave k (L_Released jid) s1)"
    using L_Cleanup by (intro inv_set_leave [OF inv1 k1]) (simp_all add: s1_def keysS_releaseSession_finish)
  then show ?thesis using L_Cleanup by (simp add: leave_step_def s1_def)
next
  case (L_Released jid)
  define s1 where "s1 = completeJob jid None now s"
  have "jid \<in> leaveIds s" using k L_Released by (auto simp: leaveIds_def)
  then have inv1: "server_inv s1" unfolding s1_def
    using server_inv_released [OF inv k L_Released] by (intro inv_completeJob [OF inv])
  have k1: "k < length (leaves s1)" using k
    by (simp add: s1_def completeJob_def Let_def split: option.splits)
  have "server_inv (set_leave k L_Done s1)" by (rule inv_set_leave [OF inv1 k1]) simp_all
  then show ?thesis using L_Released by (simp add: leave_step_def s1_def)
next
  case L_Done
  then show ?thesis using inv by (simp add: leave_step_def)
qed

lemma inv_step:
  assumes inv: "server_inv s" and en: "enabled e s"
  shows "server_inv (step e s)"
proof (cases e)
  case (AddJob url rec sched newId now)
  have "server_inv (s\<lparr>queue := queue s @ [\<lparr>job_id = newId, meetingUrl = url, startRecording = rec,
                 scheduledTime = sched, status = Queued, error = None,
                 createdAt = now, startedAt = None, completedAt = None\<rparr>]\<rparr>)"
    using en AddJob by (intro inv_queue_append [OF inv]) simp
  then show ?thesis using AddJob by (simp add: addJob_def Let_def inv_processNext)
next
  case (TimerFire h now)
  have "server_inv (s\<lparr>timeouts := (timeouts s)[h := (timeouts s ! h)\<lparr>timer_state := Fired\<rparr>],
              scheduledTimers := AList.delete (timer_job (timeouts s ! h)) (scheduledTimers s)\<rparr>)"
    using inv by simp
  then show ?thesis using TimerFire by (simp add: timerFired_def Let_def inv_processNext)
next
  case (DriverStep k out now)
  then show ?thesis using inv_driver_step [OF inv] en by simp
next
  case (LeaveRequest jid)
  then show ?thesis using inv_leave_request [OF inv] by simp
next
  case (LeaveStep k out now)
  then show ?thesis using inv_leave_step [OF inv] en by simp
next
  case ClearTimers
  then show ?thesis using inv by (simp add: clearTimers_def)
qed

lemma inv_run:
  "server_inv s \<Longrightarrow> run es s = Some s' \<Longrightarrow> server_inv s'"
proof (induction es arbitrary: s)
  case Nil
  then show ?case by simp
next
  case (Cons e es)
  then show ?case by (auto split: if_splits intro: inv_step)
qed

lemma inv_reachable: "run es (init n) = Some s \<Longrightarrow> server_inv s"
  using inv_run [OF inv_init] by blast

section \<open>Capacity\<close>

lemma processJob_catch_max [simp]:
  "maxConcurrentSessions (processJob_catch k msg now s) = maxConcurrentSessions s"
  by (simp add: processJob_catch_def Let_def)

lemma completeJob_max [simp]:
  "maxConcurrentSessions (completeJob jid err now s) = maxConcurrentSessions s"
  by (simp add: completeJob_def Let_def split: option.splits)

lemma set_pc_max [simp]: "maxConcurrentSessions (set_pc k pc s) = maxConcurrentSessions s"
  by (simp add: set_pc_def)

lemma inner_catch_max [simp]: "maxConcurrentSessions (inner_catch k msg s) = maxConcurrentSessions s"
  by (simp add: inner_catch_def releaseSession_begin_def cleanup_begin_def Let_def split: option.splits)

lemma misc_max [simp]:
  "maxConcurrentSessions (updateJobStatus jid st s) = maxConcurrentSessions s"
  "maxConcurrentSessions (releaseSession_finish jid s) = maxConcurrentSessions s"
  "maxConcurrentSessions (startRecording_finish r out s) = maxConcurrentSessions s"
  "maxConcurrentSessions (stopRecording_finish r out s) = maxConcurrentSessions s"
  "maxConcurrentSessions (cleanup_begin r s) = maxConcurrentSessions s"
  "maxConcurrentSessions (set_leave k lpc s) = maxConcurrentSessions s"
  "maxConcurrentSessions (snd (acquireSession_bind jid s)) = maxConcurrentSessions s"
  "maxConcurrentSessions (snd (releaseSession_begin jid s)) = maxConcurrentSessions s"
  by (simp_all add: updateJobStatus_def releaseSession_finish_def startRecording_finish_def
      stopRecording_finish_def cleanup_begin_def set_leave_def acquireSession_bind_def
      releaseSession_begin_def Let_def
      split: option.splits await_result.splits bool.splits)

lemma driver_step_max [simp]:
  "maxConcurrentSessions (driver_step k out now s) = maxConcurrentSessions s"
  by (simp add: driver_step_def Let_def split_beta
      split: driver_pc.splits option.splits await_result.splits)

lemma leave_step_max [simp]:
  "maxConcurrentSessions (leave_step k out now s) = maxConcurrentSessions s"
  by (simp add: leave_step_def Let_def split_beta split: leave_pc.splits await_result.splits)

lemma step_max [simp]: "maxConcurrentSessions (step e s) = maxConcurrentSessions s"
  by (cases e) (simp_all add: addJob_def Let_def timerFired_def leave_request_def clearTimers_def
      split: option.splits)

lemma run_max: "run es s = Some s' \<Longrightarrow> maxConcurrentSessions s' = maxConcurrentSessions s"
  by (induction es arbitrary: s) (auto split: if_splits)

lemma inflight_bound:
  assumes inv: "server_inv s"
  shows "length (activeSessions s) + inflight s \<le> length (activeJobs s)"
proof -
  define C where "C = filter (\<lambda>d. snd d = D_Creating) (drivers s)"
  define f where "f = (\<lambda>d :: nat \<times> driver_pc. job_id (queue s ! fst d))"
  have mem: "\<exists>k < length (drivers s). drivers s ! k = d" if "d \<in> set (drivers s)" for d
    using that by (auto simp: in_set_conv_nth)
  have inj: "inj_on f (set C)"
  proof (rule inj_onI)
    fix d d' assume d: "d \<in> set C" "d' \<in> set C" and eq: "f d = f d'"
    have "d \<in> set (drivers s)" "d' \<in> set (drivers s)" using d by (simp_all add: C_def)
    from mem [OF this(1)] mem [OF this(2)]
    obtain k k' where k: "k < length (drivers s)" "drivers s ! k = d"
      and k': "k' < length (drivers s)" "drivers s ! k' = d'" by blast
    have "driver_job s k = driver_job s k'" using eq k k' by (simp add: f_def driver_job_def)
    then have "k = k'" by (rule driver_jobs_distinct [OF inv k(1) k'(1)])
    then show "d = d'" using k k' by simp
  qed
  have "distinct (drivers s)" using server_invD(7) [OF inv] by (rule distinct_map [THEN iffD1, THEN conjunct1])
  then have dC: "distinct (map f C)" using inj by (simp add: distinct_map C_def)
  have sub: "set (map f C) \<subseteq> keysJ s" and disj: "set (map f C) \<inter> keysS s = {}"
  proof -
    have "f d \<in> keysJ s \<and> f d \<notin> keysS s" if "d \<in> set C" for d
    proof -
      have "d \<in> set (drivers s)" using that by (simp add: C_def)
      from mem [OF this] obtain k where k: "k < length (drivers s)" "drivers s ! k = d" by blast
      have pc: "snd (drivers s ! k) = D_Creating" using that k by (simp add: C_def)
      show ?thesis using server_inv_driver(4,6) [OF inv k(1)] pc k by (simp add: f_def driver_job_def)
    qed
    then show "set (map f C) \<subseteq> keysJ s" "set (map f C) \<inter> keysS s = {}" by auto
  qed
  have "length (activeSessions s) = card (keysS s)"
    using server_invD(4) [OF inv] distinct_card [of "map fst (activeSessions s)"] by (simp add: keysS_def)
  moreover have "inflight s = card (set (map f C))"
    using dC distinct_card [of "map f C"] by (simp add: inflight_def C_def)
  moreover have "length (activeJobs s) = card (keysJ s)"
    using server_invD(3) [OF inv] distinct_card [of "map fst (activeJobs s)"] by (simp add: keysJ_def)
  moreover have "card (keysS s) + card (set (map f C)) = card (keysS s \<union> set (map f C))"
    using disj by (subst card_Un_disjoint) (auto simp: keysS_def)
  moreover have "card (keysS s \<union> set (map f C)) \<le> card (keysJ s)"
    using sub server_invD(6) [OF inv] by (intro card_mono) (auto simp: keysJ_def)
  ultimately show ?thesis by simp
qed

text \<open>
  In every state that a run of the server reaches by job submissions, timers, runs of the
  processor (failures among them) and leave requests, which call \<open>completeJob\<close> after
  they have released the session, the size of \<open>activeJobs\<close> and the size of
  \<open>activeSessions\<close> are at most \<open>maxConcurrentSessions\<close>; so is the number of bound
  sessions together with the acquisitions in flight.
\<close>

lemma server_within_limit:
  assumes "run es (init maxc) = Some s"
  shows "length (activeJobs s) \<le> maxc \<and> length (activeSessions s) \<le> maxc \<and>
         length (activeSessions s) + inflight s \<le> maxc"
proof -
  have inv: "server_inv s" using assms by (rule inv_reachable)
  have "maxConcurrentSessions s = maxc" using run_max [OF assms] by (simp add: init_def)
  then show ?thesis using server_invD(5) [OF inv] inflight_bound [OF inv] by simp
qed

text \<open>
  The size of \<open>activeJobs\<close> stays within the limit in every sequence of calls, also when
  \<open>completeJob\<close> and \<open>updateJobStatus\<close> are called directly: every entry is made by
  \<open>processJob\<close>, which the dispatch pass calls only below the limit and which sets the
  entry before it waits for anything.
\<close>

lemma dispatch_within_limit:
  "length (activeJobs s) \<le> maxConcurrentSessions s \<Longrightarrow>
   length (activeJobs (dispatch now xs s)) \<le> maxConcurrentSessions s"
proof (induction xs arbitrary: s)
  case Nil
  then show ?case by simp
next
  case (Cons x xs)
  show ?case
  proof (cases "maxConcurrentSessions s \<le> length (activeJobs s)")
    case True
    then show ?thesis using Cons.prems by simp
  next
    case False
    then have "length (activeJobs (processJob now x s)) \<le> maxConcurrentSessions (processJob now x s)"
      using length_activeJobs_processJob [of now x s] by simp
    from Cons.IH [OF this] False show ?thesis by simp
  qed
qed

lemma processNext_within_limit:
  "length (activeJobs s) \<le> maxConcurrentSessions s \<Longrightarrow>
   length (activeJobs (processNext now s)) \<le> maxConcurrentSessions s"
  by (simp add: processNext_def dispatch_within_limit)

lemma length_alist_delete: "length (AList.delete k al) \<le> length al"
  by (induction al) auto

lemma completeJob_within_limit:
  assumes "length (activeJobs s) \<le> maxConcurrentSessions s"
  shows "length (activeJobs (completeJob jid err now s)) \<le> maxConcurrentSessions s"
proof (cases "getJob jid s")
  case None
  then show ?thesis using assms by (simp add: completeJob_def)
next
  case (Some i)
  define s2 where "s2 = s\<lparr>queue := (queue s)[i := (if err \<noteq> None \<and> err \<noteq> Some []
                      then (queue s ! i)\<lparr>status := Failed, error := err\<rparr>
                      else (queue s ! i)\<lparr>status := Completed\<rparr>)\<lparr>completedAt := Some now\<rparr>],
                  activeJobs := AList.delete jid (activeJobs s)\<rparr>"
  have "length (activeJobs s2) \<le> maxConcurrentSessions s2"
    using assms length_alist_delete [of jid "activeJobs s"] by (simp add: s2_def)
  from processNext_within_limit [OF this, of now] show ?thesis
    using Some by (simp add: completeJob_def Let_def s2_def)
qed

lemma processJob_catch_within_limit:
  assumes "length (activeJobs s) \<le> maxConcurrentSessions s"
  shows "length (activeJobs (processJob_catch k msg now s)) \<le> maxConcurrentSessions s"
proof -
  define s3 where "s3 = s\<lparr>queue := (queue s)[fst (drivers s ! k) := (queue s ! fst (drivers s ! k))\<lparr>status := Failed, error := Some msg,
                                           completedAt := Some now\<rparr>],
              activeJobs := AList.delete (job_id (queue s ! fst (drivers s ! k))) (activeJobs s),
              drivers := (drivers s)[k := (fst (drivers s ! k), D_Failed)]\<rparr>"
  have "length (activeJobs s3) \<le> maxConcurrentSessions s3"
    using assms length_alist_delete [of "job_id (queue s ! fst (drivers s ! k))" "activeJobs s"]
    by (simp add: s3_def)
  from processNext_within_limit [OF this, of now] show ?thesis
    by (simp add: processJob_catch_def Let_def s3_def)
qed

lemma inner_catch_activeJobs: "activeJobs (inner_catch k msg s) = activeJobs s"
  by (simp add: inner_catch_def releaseSession_begin_def set_pc_def Let_def split: option.splits)

lemma bind_activeJobs: "activeJobs (snd (acquireSession_bind jid s)) = activeJobs s"
  by (simp add: acquireSession_bind_def Let_def)

lemma driver_step_within_limit:
  assumes "length (activeJobs s) \<le> maxConcurrentSessions s"
  shows "length (activeJobs (driver_step k out now s)) \<le> maxConcurrentSessions s"
  using assms processJob_catch_within_limit [OF assms, of k _ now]
  by (cases "snd (drivers s ! k)")
    (simp_all add: driver_step_def set_pc_def Let_def split_beta
      inner_catch_activeJobs bind_activeJobs
      split: option.splits await_result.splits)

lemma leave_step_within_limit:
  assumes "length (activeJobs s) \<le> maxConcurrentSessions s"
  shows "length (activeJobs (leave_step k out now s)) \<le> maxConcurrentSessions s"
  using assms completeJob_within_limit [OF assms, of _ None now]
  by (cases "leaves s ! k")
    (simp_all add: leave_step_def releaseSession_begin_def split_beta
      split: option.splits await_result.splits)

lemma step_within_limit:
  assumes "length (activeJobs s) \<le> maxConcurrentSessions s"
  shows "length (activeJobs (step e s)) \<le> maxConcurrentSessions s"
proof (cases e)
  case (AddJob url rec sched newId now)
  have "length (activeJobs (processNext now (s\<lparr>queue := queue s @ [\<lparr>job_id = newId, meetingUrl = url, startRecording = rec,
                 scheduledTime = sched, status = Queued, error = None,
                 createdAt = now, startedAt = None, completedAt = None\<rparr>]\<rparr>))) \<le> maxConcurrentSessions s"
    using processNext_within_limit [of "s\<lparr>queue := queue s @ [\<lparr>job_id = newId, meetingUrl = url, startRecording = rec,
                 scheduledTime = sched, status = Queued, error = None,
                 createdAt = now, startedAt = None, completedAt = None\<rparr>]\<rparr>" now] assms by simp
  then show ?thesis using AddJob by (simp add: addJob_def Let_def)
next
  case (TimerFire h now)
  have "length (activeJobs (processNext now (s\<lparr>timeouts := (timeouts s)[h := (timeouts s ! h)\<lparr>timer_state := Fired\<rparr>],
              scheduledTimers := AList.delete (timer_job (timeouts s ! h)) (scheduledTimers s)\<rparr>))) \<le> maxConcurrentSessions s"
    using processNext_within_limit [of "s\<lparr>timeouts := (timeouts s)[h := (timeouts s ! h)\<lparr>timer_state := Fired\<rparr>],
              scheduledTimers := AList.delete (timer_job (timeouts s ! h)) (scheduledTimers s)\<rparr>" now] assms by simp
  then show ?thesis using TimerFire by (simp add: timerFired_def Let_def)
next
  case (DriverStep k out now)
  then show ?thesis using driver_step_within_limit [OF assms] by simp
next
  case (LeaveRequest jid)
  then show ?thesis using assms by (simp add: leave_request_def split: option.splits)
next
  case (LeaveStep k out now)
  then show ?thesis using leave_step_within_limit [OF assms] by simp
next
  case ClearTimers
  then show ?thesis using assms by (simp add: clearTimers_def)
qed

lemma call_step_max: "maxConcurrentSessions (call_step c s) = maxConcurrentSessions s"
  by (cases c) simp_all

lemma call_step_within_limit:
  assumes "length (activeJobs s) \<le> maxConcurrentSessions s"
  shows "length (activeJobs (call_step c s)) \<le> maxConcurrentSessions s"
  using step_within_limit [OF assms] completeJob_within_limit [OF assms] assms
  by (cases c) simp_all

lemma calls_within_limit:
  "length (activeJobs s) \<le> maxConcurrentSessions s \<Longrightarrow> calls cs s = Some s' \<Longrightarrow>
   length (activeJobs s') \<le> maxConcurrentSessions s \<and> maxConcurrentSessions s' = maxConcurrentSessions s"
proof (induction cs arbitrary: s)
  case Nil
  then show ?case by simp
next
  case (Cons c cs)
  have r: "calls cs (call_step c s) = Some s'" using Cons.prems(2) by (simp split: if_splits)
  have "length (activeJobs (call_step c s)) \<le> maxConcurrentSessions (call_step c s)"
    using call_step_within_limit [OF Cons.prems(1)] by (simp add: call_step_max)
  from Cons.IH [OF this r] show ?case by (simp add: call_step_max)
qed

lemma activeJobs_within_limit:
  assumes "calls cs (init maxc) = Some s"
  shows "length (activeJobs s) \<le> maxc"
  using calls_within_limit [OF _ assms] by (simp add: init_def)

text \<open>
  Claim C1 fails on the code for the size of \<open>activeSessions\<close>. \<open>acquireSession\<close>
  checks the limit, waits for \<open>MeetingSession.create\<close> and binds the session only
  afterwards, so the pool does not count the acquisitions in flight. With a limit of two,
  three jobs are submitted and \<open>completeJob\<close> is called for the first one while the two
  sessions are still being created: the queue has a free slot again and starts the third
  job, whose acquisition passes the check of the pool as well. When the three sessions
  have been created, \<open>activeSessions\<close> has three entries; \<open>activeJobs\<close> has two.
\<close>

theorem pool_exceeds_limit:
  "calls tr_complete_in_flight (init 2) = Some three_sessions \<and>
   calls (take 4 tr_complete_in_flight) (init 2) = Some completed_in_flight \<and>
   maxConcurrentSessions completed_in_flight = 2 \<and>
   length (activeJobs completed_in_flight) = 2 \<and>
   length (activeSessions completed_in_flight) = 0 \<and>
   inflight completed_in_flight = 3 \<and>
   maxConcurrentSessions three_sessions = 2 \<and>
   length (activeJobs three_sessions) = 2 \<and>
   length (activeSessions three_sessions) = 3"
  by code_simp

section \<open>Scheduled jobs\<close>

lemma dispatch_other:
  "i \<notin> set xs \<Longrightarrow> queue (dispatch now xs s) ! i = queue s ! i"
proof (induction xs arbitrary: s)
  case Nil
  then show ?case by simp
next
  case (Cons x xs)
  then show ?case by (simp add: queue_processJob_other)
qed

lemma processNext_other:
  "i \<notin> set (readyJobs now s) \<Longrightarrow> queue (processNext now s) ! i = queue s ! i"
  by (simp add: processNext_def dispatch_other)

lemma not_ready_future:
  assumes "scheduledTime (queue s ! i) = Some t" "now < t"
  shows "i \<notin> set (readyJobs now s)"
  using assms by (simp add: readyJobs_def isReady_def)

lemma queue_frame [simp]:
  "queue (set_pc k pc s) = queue s"
  "queue (inner_catch k msg s) = queue s"
  "queue (snd (acquireSession_bind jid s)) = queue s"
  "queue (leave_request jid s) = queue s"
  "queue (clearTimers s) = queue s"
  by (simp_all add: set_pc_def inner_catch_def releaseSession_begin_def acquireSession_bind_def
      leave_request_def clearTimers_def Let_def split: option.splits)

lemma processJob_catch_waiting:
  assumes inv: "server_inv s" and k: "k < length (drivers s)"
    and i: "status (queue s ! i) = Queued" "scheduledTime (queue s ! i) = Some t" and now: "now < t"
  shows "queue (processJob_catch k msg now s) ! i = queue s ! i"
proof -
  have ne: "fst (drivers s ! k) \<noteq> i" using server_inv_driver(2) [OF inv k] i(1) by auto
  define s3 where "s3 = s\<lparr>queue := (queue s)[fst (drivers s ! k) := (queue s ! fst (drivers s ! k))\<lparr>status := Failed, error := Some msg,
                                           completedAt := Some now\<rparr>],
              activeJobs := AList.delete (job_id (queue s ! fst (drivers s ! k))) (activeJobs s),
              drivers := (drivers s)[k := (fst (drivers s ! k), D_Failed)]\<rparr>"
  have q: "queue s3 ! i = queue s ! i" using ne by (simp add: s3_def)
  have "i \<notin> set (readyJobs now s3)" using i(2) now q by (intro not_ready_future [of _ _ t]) simp_all
  then have "queue (processNext now s3) ! i = queue s ! i" using q by (simp add: processNext_other)
  then show ?thesis by (simp add: processJob_catch_def Let_def s3_def)
qed

lemma completeJob_waiting:
  assumes inv: "server_inv s" and lv: "jid \<in> leaveIds s" and il: "i < length (queue s)"
    and i: "status (queue s ! i) = Queued" "scheduledTime (queue s ! i) = Some t" and now: "now < t"
  shows "queue (completeJob jid err now s) ! i = queue s ! i"
proof (cases "getJob jid s")
  case None
  then show ?thesis by (simp add: completeJob_def)
next
  case (Some i')
  then have i': "i' < length (queue s)" "job_id (queue s ! i') = jid"
    using findJob_Some [of jid "queue s" i'] by (simp_all add: getJob_def)
  have ne: "i' \<noteq> i" using server_inv_queued(2) [OF inv il i(1)] lv i'(2) by auto
  define job1 where "job1 = (if err \<noteq> None \<and> err \<noteq> Some []
                      then (queue s ! i')\<lparr>status := Failed, error := err\<rparr>
                      else (queue s ! i')\<lparr>status := Completed\<rparr>)"
  define s2 where "s2 = s\<lparr>queue := (queue s)[i' := job1\<lparr>completedAt := Some now\<rparr>],
                  activeJobs := AList.delete jid (activeJobs s)\<rparr>"
  have q: "queue s2 ! i = queue s ! i" using ne by (simp add: s2_def)
  have "i \<notin> set (readyJobs now s2)" using i(2) now q by (intro not_ready_future [of _ _ t]) simp_all
  then have "queue (processNext now s2) ! i = queue s ! i" using q by (simp add: processNext_other)
  then show ?thesis using Some by (simp add: completeJob_def Let_def s2_def job1_def)
qed

lemma updateJobStatus_waiting:
  assumes inv: "server_inv s" and k: "k < length (drivers s)"
    and i: "status (queue s ! i) = Queued"
  shows "queue (updateJobStatus (driver_job s k) st s) ! i = queue s ! i"
proof (cases "getJob (driver_job s k) s")
  case None
  then show ?thesis by (simp add: updateJobStatus_def)
next
  case (Some i')
  then have i': "i' < length (queue s)" "job_id (queue s ! i') = driver_job s k"
    using findJob_Some [of "driver_job s k" "queue s" i'] by (simp_all add: getJob_def)
  have "i' = fst (drivers s ! k)"
    using distinct_ids_eq [OF server_invD(2) [OF inv] i'(1) server_inv_driver(1) [OF inv k]] i'(2)
    by (simp add: driver_job_def)
  then have "i' \<noteq> i" using server_inv_driver(2) [OF inv k] i by auto
  then show ?thesis using Some by (simp add: updateJobStatus_def)
qed

lemma driver_step_waiting:
  assumes inv: "server_inv s" and k: "k < length (drivers s)"
    and i: "status (queue s ! i) = Queued" "scheduledTime (queue s ! i) = Some t" and now: "now < t"
  shows "queue (driver_step k out now s) ! i = queue s ! i"
proof -
  note c = processJob_catch_waiting [OF inv k i now]
  have u: "queue (updateJobStatus (job_id (queue s ! fst (drivers s ! k))) InMeeting s) ! i = queue s ! i"
    using updateJobStatus_waiting [OF inv k i(1)] by (simp add: driver_job_def)
  show ?thesis
    by (cases "snd (drivers s ! k)")
      (simp_all add: driver_step_def Let_def split_beta c u split: option.splits await_result.splits)
qed

lemma leave_step_waiting:
  assumes inv: "server_inv s" and k: "k < length (leaves s)" and il: "i < length (queue s)"
    and i: "status (queue s ! i) = Queued" "scheduledTime (queue s ! i) = Some t" and now: "now < t"
  shows "queue (leave_step k out now s) ! i = queue s ! i"
proof (cases "leaves s ! k")
  case (L_Released jid)
  then have "jid \<in> leaveIds s" using k by (auto simp: leaveIds_def)
  from completeJob_waiting [OF inv this il i now] L_Released show ?thesis
    by (simp add: leave_step_def)
qed (simp_all add: leave_step_def releaseSession_begin_def split_beta
      split: option.splits await_result.splits)

lemma step_waiting:
  assumes inv: "server_inv s" and en: "enabled e s" and il: "i < length (queue s)"
    and i: "status (queue s ! i) = Queued" "scheduledTime (queue s ! i) = Some t"
    and tm: "case event_time e of None \<Rightarrow> True | Some now \<Rightarrow> now < t"
  shows "queue (step e s) ! i = queue s ! i"
proof (cases e)
  case (AddJob url rec sched newId now)
  define s1 where "s1 = s\<lparr>queue := queue s @ [\<lparr>job_id = newId, meetingUrl = url, startRecording = rec,
                 scheduledTime = sched, status = Queued, error = None,
                 createdAt = now, startedAt = None, completedAt = None\<rparr>]\<rparr>"
  have q: "queue s1 ! i = queue s ! i" using il by (simp add: s1_def nth_append)
  have "now < t" using tm AddJob by simp
  then have "i \<notin> set (readyJobs now s1)" using i(2) q by (intro not_ready_future [of _ _ t]) simp_all
  then have "queue (processNext now s1) ! i = queue s ! i" using q by (simp add: processNext_other)
  then show ?thesis using AddJob by (simp add: addJob_def Let_def s1_def)
next
  case (TimerFire h now)
  define s1 where "s1 = s\<lparr>timeouts := (timeouts s)[h := (timeouts s ! h)\<lparr>timer_state := Fired\<rparr>],
              scheduledTimers := AList.delete (timer_job (timeouts s ! h)) (scheduledTimers s)\<rparr>"
  have q: "queue s1 = queue s" by (simp add: s1_def)
  have "now < t" using tm TimerFire by simp
  then have "i \<notin> set (readyJobs now s1)" using i(2) q by (intro not_ready_future [of _ _ t]) simp_all
  then have "queue (processNext now s1) ! i = queue s ! i" using q by (simp add: processNext_other)
  then show ?thesis using TimerFire by (simp add: timerFired_def Let_def s1_def)
next
  case (DriverStep k out now)
  then show ?thesis using driver_step_waiting [OF inv _ i, of k now out] en tm by simp
next
  case (LeaveRequest jid)
  then show ?thesis by simp
next
  case (LeaveStep k out now)
  then show ?thesis using leave_step_waiting [OF inv _ il i, of k now out] en tm by simp
next
  case ClearTimers
  then show ?thesis by simp
qed

lemma step_length_queue: "length (queue s) \<le> length (queue (step e s))"
proof (cases e)
  case (DriverStep k out now)
  have "length (queue (driver_step k out now s)) = length (queue s)"
    by (cases "snd (drivers s ! k)")
      (simp_all add: driver_step_def Let_def split_beta processJob_catch_def
        split: option.splits await_result.splits)
  then show ?thesis using DriverStep by simp
next
  case (LeaveStep k out now)
  have "length (queue (leave_step k out now s)) = length (queue s)"
    by (cases "leaves s ! k")
      (simp_all add: leave_step_def releaseSession_begin_def split_beta completeJob_def Let_def
        split: option.splits await_result.splits)
  then show ?thesis using LeaveStep by simp
qed (simp_all add: addJob_def Let_def timerFired_def)

lemma run_waiting:
  assumes "server_inv s" "run es s = Some s'" "i < length (queue s)"
    "status (queue s ! i) = Queued" "scheduledTime (queue s ! i) = Some t"
    "\<forall>e \<in> set es. case event_time e of None \<Rightarrow> True | Some now \<Rightarrow> now < t"
  shows "queue s' ! i = queue s ! i"
  using assms
proof (induction es arbitrary: s)
  case Nil
  then show ?case by simp
next
  case (Cons e es)
  have en: "enabled e s" and r: "run es (step e s) = Some s'"
    using Cons.prems(2) by (simp_all split: if_splits)
  have tm: "case event_time e of None \<Rightarrow> True | Some now \<Rightarrow> now < t" using Cons.prems(6) by simp
  have q: "queue (step e s) ! i = queue s ! i"
    by (rule step_waiting [OF Cons.prems(1) en Cons.prems(3,4,5) tm])
  have "queue s' ! i = queue (step e s) ! i"
  proof (rule Cons.IH [OF inv_step [OF Cons.prems(1) en] r])
    show "i < length (queue (step e s))" using Cons.prems(3) step_length_queue [of s e] by simp
    show "status (queue (step e s) ! i) = Queued" "scheduledTime (queue (step e s) ! i) = Some t"
      using q Cons.prems(4,5) by simp_all
    show "\<forall>e \<in> set es. case event_time e of None \<Rightarrow> True | Some now \<Rightarrow> now < t"
      using Cons.prems(6) by simp
  qed
  then show ?case using q by simp
qed

lemma addJob_future:
  assumes "now < t"
  shows "queue (snd (addJob url rec (Some t) newId now s)) ! length (queue s) =
     \<lparr>job_id = newId, meetingUrl = url, startRecording = rec,
                 scheduledTime = Some t, status = Queued, error = None,
                 createdAt = now, startedAt = None, completedAt = None\<rparr>"
proof -
  define s1 where "s1 = s\<lparr>queue := queue s @ [\<lparr>job_id = newId, meetingUrl = url, startRecording = rec,
                 scheduledTime = Some t, status = Queued, error = None,
                 createdAt = now, startedAt = None, completedAt = None\<rparr>]\<rparr>"
  have "length (queue s) \<notin> set (readyJobs now s1)"
    using assms by (intro not_ready_future [of _ _ t]) (simp_all add: s1_def)
  then have "queue (processNext now s1) ! length (queue s) = queue s1 ! length (queue s)"
    by (rule processNext_other)
  then show ?thesis by (simp add: addJob_def Let_def s1_def)
qed

text \<open>
  Claim C6. A job submitted with a scheduled time \<open>t\<close> that lies after the reading of the
  clock at submission is \<open>queued\<close> when \<open>addJob\<close> returns, and it stays \<open>queued\<close>,
  whatever the free capacity, through every run of events whose readings of the clock are
  all before \<open>t\<close>. So it leaves \<open>queued\<close> only in a dispatch pass whose reading of the
  clock is \<open>t\<close> or later.
\<close>

theorem scheduled_job_waits:
  assumes "run es (init maxc) = Some s"
    and "enabled (AddJob url rec (Some t) newId now0) s" and "now0 < t"
    and "run es' (step (AddJob url rec (Some t) newId now0) s) = Some s'"
    and "\<forall>e \<in> set es'. case event_time e of None \<Rightarrow> True | Some now \<Rightarrow> now < t"
  shows "status (queue s' ! length (queue s)) = Queued"
proof -
  let ?s1 = "step (AddJob url rec (Some t) newId now0) s"
  have inv: "server_inv s" using assms(1) by (rule inv_reachable)
  have inv1: "server_inv ?s1" by (rule inv_step [OF inv assms(2)])
  have q1: "queue ?s1 ! length (queue s) = \<lparr>job_id = newId, meetingUrl = url, startRecording = rec,
                 scheduledTime = Some t, status = Queued, error = None,
                 createdAt = now0, startedAt = None, completedAt = None\<rparr>"
    using addJob_future [OF assms(3)] by simp
  have len: "length (queue s) < length (queue ?s1)" by (simp add: addJob_def Let_def)
  have "queue s' ! length (queue s) = queue ?s1 ! length (queue s)"
    by (rule run_waiting [OF inv1 assms(4) len _ _ assms(5)])
      (simp_all add: addJob_future [OF assms(3)])
  then show ?thesis by (simp add: addJob_future [OF assms(3)])
qed

theorem scheduled_job_waits_witness:
  "status (queue (step (DriverStep 0 (Resolve True) 30)
            (step (AddJob ''https://meet.google.com/y'' True None ''b'' 20)
              (step (AddJob ''https://meet.google.com/x'' True (Some 100) ''a'' 10) (init 2))))
          ! length (queue (init 2))) = Queued \<and>
   length (activeJobs (step (DriverStep 0 (Resolve True) 30)
            (step (AddJob ''https://meet.google.com/y'' True None ''b'' 20)
              (step (AddJob ''https://meet.google.com/x'' True (Some 100) ''a'' 10) (init 2))))) = 1"
proof -
  have r0: "run [] (init 2) = Some (init 2)" by simp
  have en: "enabled (AddJob ''https://meet.google.com/x'' True (Some 100) ''a'' 10) (init 2)"
    by (simp add: init_def)
  have r1: "run tr_wait (step (AddJob ''https://meet.google.com/x'' True (Some 100) ''a'' 10) (init 2)) =
      Some (step (DriverStep 0 (Resolve True) 30)
            (step (AddJob ''https://meet.google.com/y'' True None ''b'' 20)
              (step (AddJob ''https://meet.google.com/x'' True (Some 100) ''a'' 10) (init 2))))"
    by code_simp
  have tm: "\<forall>e \<in> set tr_wait. case event_time e of None \<Rightarrow> True | Some now \<Rightarrow> now < 100"
    by (simp add: tr_wait_def)
  have cap: "length (activeJobs (step (DriverStep 0 (Resolve True) 30)
            (step (AddJob ''https://meet.google.com/y'' True None ''b'' 20)
              (step (AddJob ''https://meet.google.com/x'' True (Some 100) ''a'' 10) (init 2))))) = 1"
    by code_simp
  from scheduled_job_waits [OF r0 en _ r1 tm] cap show ?thesis by simp
qed

section \<open>Order of dispatch\<close>


lemma drivers_processJob:
  "processCallback s \<Longrightarrow> map fst (drivers (processJob now i s)) = map fst (drivers s) @ [i]"
  by (simp add: processJob_def Let_def)

lemma processJob_self:
  "processCallback s \<Longrightarrow> i < length (queue s) \<Longrightarrow>
   queue (processJob now i s) ! i = (queue s ! i)\<lparr>status := Processing, startedAt := Some now\<rparr>"
  by (simp add: processJob_def Let_def)

lemma dispatch_prefix:
  assumes "processCallback s" "distinct xs" "\<forall>i \<in> set xs. i < length (queue s)"
  shows "\<exists>n \<le> length xs.
     map fst (drivers (dispatch now xs s)) = map fst (drivers s) @ take n xs \<and>
     (\<forall>i \<in> set (take n xs).
        queue (dispatch now xs s) ! i = (queue s ! i)\<lparr>status := Processing, startedAt := Some now\<rparr>) \<and>
     (\<forall>i. i \<notin> set (take n xs) \<longrightarrow> queue (dispatch now xs s) ! i = queue s ! i) \<and>
     (n < length xs \<longrightarrow> maxConcurrentSessions s \<le> length (activeJobs (dispatch now xs s)))"
  using assms
proof (induction xs arbitrary: s)
  case Nil
  then show ?case by simp
next
  case (Cons x xs)
  show ?case
  proof (cases "maxConcurrentSessions s \<le> length (activeJobs s)")
    case True
    then have "map fst (drivers (dispatch now (x # xs) s)) = map fst (drivers s) @ take 0 (x # xs) \<and>
     (\<forall>i \<in> set (take 0 (x # xs)).
        queue (dispatch now (x # xs) s) ! i = (queue s ! i)\<lparr>status := Processing, startedAt := Some now\<rparr>) \<and>
     (\<forall>i. i \<notin> set (take 0 (x # xs)) \<longrightarrow> queue (dispatch now (x # xs) s) ! i = queue s ! i) \<and>
     (0 < length (x # xs) \<longrightarrow> maxConcurrentSessions s \<le> length (activeJobs (dispatch now (x # xs) s)))"
      by simp
    then show ?thesis by blast
  next
    case False
    define s1 where "s1 = processJob now x s"
    have cb1: "processCallback s1" using Cons.prems(1) by (simp add: s1_def)
    have d: "distinct xs" and xn: "x \<notin> set xs" using Cons.prems(2) by simp_all
    have b: "\<forall>i \<in> set xs. i < length (queue s1)" using Cons.prems(3) by (simp add: s1_def)
    from Cons.IH [OF cb1 d b] obtain n where n: "n \<le> length xs"
      "map fst (drivers (dispatch now xs s1)) = map fst (drivers s1) @ take n xs"
      "\<forall>i \<in> set (take n xs).
        queue (dispatch now xs s1) ! i = (queue s1 ! i)\<lparr>status := Processing, startedAt := Some now\<rparr>"
      "\<forall>i. i \<notin> set (take n xs) \<longrightarrow> queue (dispatch now xs s1) ! i = queue s1 ! i"
      "n < length xs \<longrightarrow> maxConcurrentSessions s1 \<le> length (activeJobs (dispatch now xs s1))"
      by blast
    have eq: "dispatch now (x # xs) s = dispatch now xs s1" using False by (simp add: s1_def)
    have xl: "x < length (queue s)" using Cons.prems(3) by simp
    have xnt: "x \<notin> set (take n xs)" using xn by (meson in_set_takeD)
    have 1: "map fst (drivers (dispatch now xs s1)) = map fst (drivers s) @ take (Suc n) (x # xs)"
      using n(2) drivers_processJob [OF Cons.prems(1), of now x] by (simp add: s1_def)
    have 2: "\<forall>i \<in> set (take (Suc n) (x # xs)).
        queue (dispatch now xs s1) ! i = (queue s ! i)\<lparr>status := Processing, startedAt := Some now\<rparr>"
    proof
      fix i assume "i \<in> set (take (Suc n) (x # xs))"
      then consider "i = x" | "i \<in> set (take n xs)" "i \<noteq> x" using xnt by auto
      then show "queue (dispatch now xs s1) ! i = (queue s ! i)\<lparr>status := Processing, startedAt := Some now\<rparr>"
      proof cases
        case 1
        then show ?thesis using n(4) xnt processJob_self [OF Cons.prems(1) xl, of now]
          by (simp add: s1_def)
      next
        case 2
        then show ?thesis using n(3) by (simp add: s1_def queue_processJob_other)
      qed
    qed
    have 3: "\<forall>i. i \<notin> set (take (Suc n) (x # xs)) \<longrightarrow> queue (dispatch now xs s1) ! i = queue s ! i"
      using n(4) by (simp add: s1_def queue_processJob_other)
    have 4: "Suc n < length (x # xs) \<longrightarrow> maxConcurrentSessions s \<le> length (activeJobs (dispatch now xs s1))"
      using n(5) by (simp add: s1_def)
    have "Suc n \<le> length (x # xs)" using n(1) by simp
    then show ?thesis unfolding eq using 1 2 3 4 by blast
  qed
qed

lemma sorted_readyJobs: "sorted_wrt (<) (readyJobs now s)"
  unfolding readyJobs_def by (intro sorted_wrt_filter sorted_wrt_upt)

lemma distinct_readyJobs: "distinct (readyJobs now s)"
  by (simp add: readyJobs_def)

lemma processNext_prefix:
  assumes "processCallback s"
  shows "\<exists>n \<le> length (readyJobs now s).
     map fst (drivers (processNext now s)) = map fst (drivers s) @ take n (readyJobs now s) \<and>
     (\<forall>i \<in> set (take n (readyJobs now s)).
        queue (processNext now s) ! i = (queue s ! i)\<lparr>status := Processing, startedAt := Some now\<rparr>) \<and>
     (\<forall>i. i \<notin> set (take n (readyJobs now s)) \<longrightarrow> queue (processNext now s) ! i = queue s ! i) \<and>
     (n < length (readyJobs now s) \<longrightarrow>
        maxConcurrentSessions s \<le> length (activeJobs (processNext now s)))"
proof -
  have "\<forall>i \<in> set (readyJobs now s). i < length (queue s)" by (simp add: readyJobs_def)
  from dispatch_prefix [OF assms distinct_readyJobs this, of now] show ?thesis
    using assms by (simp add: processNext_def)
qed

lemma prefix_closed:
  assumes srt: "sorted_wrt (<) (xs :: nat list)" and j: "j \<in> set (take n xs)"
    and i: "i \<in> set xs" and lt: "i < j"
  shows "i \<in> set (take n xs)"
proof -
  obtain m where m: "m < length (take n xs)" "take n xs ! m = j"
    using j by (auto simp: in_set_conv_nth)
  then have m': "m < n" "m < length xs" "xs ! m = j" by simp_all
  obtain l where l: "l < length xs" "xs ! l = i" using i by (auto simp: in_set_conv_nth)
  have "l < m"
  proof (rule ccontr)
    assume "\<not> l < m"
    then consider "l = m" | "m < l" by linarith
    then show False
    proof cases
      case 1
      then show ?thesis using l m' lt by simp
    next
      case 2
      then have "xs ! m < xs ! l" using srt l(1) by (simp add: sorted_wrt_iff_nth_less)
      then show ?thesis using l m' lt by simp
    qed
  qed
  then have "l < length (take n xs)" "take n xs ! l = i" using m' l by simp_all
  then show ?thesis by (metis nth_mem)
qed

lemma fifo_processNext:
  assumes f: "unscheduled_in_order s"
  shows "unscheduled_in_order (processNext now s)"
proof (cases "processCallback s")
  case False
  then show ?thesis using f by (simp add: processNext_def)
next
  case True
  from processNext_prefix [OF True, of now] obtain n where
    st: "\<forall>i \<in> set (take n (readyJobs now s)).
        queue (processNext now s) ! i = (queue s ! i)\<lparr>status := Processing, startedAt := Some now\<rparr>"
    and ot: "\<forall>i. i \<notin> set (take n (readyJobs now s)) \<longrightarrow> queue (processNext now s) ! i = queue s ! i"
    by blast
  let ?P = "set (take n (readyJobs now s))"
  have sch: "scheduledTime (queue (processNext now s) ! i) = scheduledTime (queue s ! i)" for i
    using st ot by (cases "i \<in> ?P") simp_all
  have nq: "status (queue (processNext now s) ! i) \<noteq> Queued" if "status (queue s ! i) \<noteq> Queued" for i
    using st ot that by (cases "i \<in> ?P") simp_all
  show ?thesis unfolding unscheduled_in_order_def
  proof (intro allI impI)
    fix i j
    assume a: "i < j \<and> j < length (queue (processNext now s)) \<and>
            scheduledTime (queue (processNext now s) ! i) = None \<and>
            scheduledTime (queue (processNext now s) ! j) = None \<and>
            status (queue (processNext now s) ! j) \<noteq> Queued"
    then have ij: "i < j" "j < length (queue s)" "scheduledTime (queue s ! i) = None"
      "scheduledTime (queue s ! j) = None" by (simp_all add: sch)
    show "status (queue (processNext now s) ! i) \<noteq> Queued"
    proof (cases "status (queue s ! i) = Queued")
      case False
      then show ?thesis by (rule nq)
    next
      case True
      have jP: "j \<in> ?P"
      proof (rule ccontr)
        assume "j \<notin> ?P"
        then have "status (queue s ! j) \<noteq> Queued" using a ot by simp
        then have "status (queue s ! i) \<noteq> Queued"
          using f ij unfolding unscheduled_in_order_def by blast
        then show False using True by simp
      qed
      have "i \<in> set (readyJobs now s)" using True ij by (simp add: readyJobs_def isReady_def)
      from prefix_closed [OF sorted_readyJobs jP this ij(1)] st show ?thesis by simp
    qed
  qed
qed

lemma fifo_transfer:
  assumes eq: "qview s' = qview s" and f: "unscheduled_in_order s"
  shows "unscheduled_in_order s'"
proof -
  have len: "length (queue s') = length (queue s)"
    using eq unfolding qview_def by (rule map_eq_imp_length_eq)
  have nth: "scheduledTime (queue s' ! i) = scheduledTime (queue s ! i) \<and>
        (status (queue s' ! i) = Queued) = (status (queue s ! i) = Queued)" if "i < length (queue s)" for i
  proof -
    have "qview s' ! i = qview s ! i" using eq by simp
    then show ?thesis using that len by (simp add: qview_def)
  qed
  show ?thesis unfolding unscheduled_in_order_def
  proof (intro allI impI)
    fix i j
    assume a: "i < j \<and> j < length (queue s') \<and>
            scheduledTime (queue s' ! i) = None \<and> scheduledTime (queue s' ! j) = None \<and>
            status (queue s' ! j) \<noteq> Queued"
    then have j: "j < length (queue s)" and i: "i < length (queue s)" using len by simp_all
    have "i < j \<and> j < length (queue s) \<and>
            scheduledTime (queue s ! i) = None \<and> scheduledTime (queue s ! j) = None \<and>
            status (queue s ! j) \<noteq> Queued"
      using a nth [OF i] nth [OF j] j by simp
    then have "status (queue s ! i) \<noteq> Queued"
      using f unfolding unscheduled_in_order_def by blast
    then show "status (queue s' ! i) \<noteq> Queued" using nth [OF i] by simp
  qed
qed

lemma qview_job_update:
  assumes "i < length (queue s)" "status (queue s ! i) \<noteq> Queued" "status j' \<noteq> Queued"
    "scheduledTime j' = scheduledTime (queue s ! i)"
  shows "qview (s\<lparr>queue := (queue s)[i := j'], activeJobs := aj, drivers := dr\<rparr>) = qview s"
  using assms by (simp add: qview_def map_update list_update_same_conv)

lemma qview_queue_cong: "queue s' = queue s \<Longrightarrow> qview s' = qview s"
  by (simp add: qview_def)

lemma qview_update_nonqueued:
  assumes "i < length q" "status (q ! i) \<noteq> Queued" "status j' \<noteq> Queued"
    "scheduledTime j' = scheduledTime (q ! i)"
  shows "map (\<lambda>job. (scheduledTime job, status job = Queued)) (q[i := j']) =
         map (\<lambda>job. (scheduledTime job, status job = Queued)) q"
  using assms by (simp add: map_update list_update_same_conv)

lemma fifo_processJob_catch:
  assumes inv: "server_inv s" and k: "k < length (drivers s)" and f: "unscheduled_in_order s"
  shows "unscheduled_in_order (processJob_catch k msg now s)"
proof -
  define i where "i = fst (drivers s ! k)"
  define s3 where "s3 = s\<lparr>queue := (queue s)[i := (queue s ! i)\<lparr>status := Failed, error := Some msg,
                                           completedAt := Some now\<rparr>],
              activeJobs := AList.delete (job_id (queue s ! i)) (activeJobs s),
              drivers := (drivers s)[k := (i, D_Failed)]\<rparr>"
  have "qview s3 = qview s"
    using server_inv_driver(1,2) [OF inv k]
    by (simp add: qview_def s3_def i_def qview_update_nonqueued)
  then have "unscheduled_in_order s3" using f by (rule fifo_transfer)
  then have "unscheduled_in_order (processNext now s3)" by (rule fifo_processNext)
  then show ?thesis by (simp add: processJob_catch_def Let_def s3_def i_def)
qed

lemma fifo_completeJob:
  assumes inv: "server_inv s" and lv: "jid \<in> leaveIds s" and f: "unscheduled_in_order s"
  shows "unscheduled_in_order (completeJob jid err now s)"
proof (cases "getJob jid s")
  case None
  then show ?thesis using f by (simp add: completeJob_def)
next
  case (Some i)
  then have i: "i < length (queue s)" "job_id (queue s ! i) = jid"
    using findJob_Some [of jid "queue s" i] by (simp_all add: getJob_def)
  have nq: "status (queue s ! i) \<noteq> Queued"
    using server_inv_queued(2) [OF inv i(1)] lv i(2) by auto
  define job1 where "job1 = (if err \<noteq> None \<and> err \<noteq> Some []
                      then (queue s ! i)\<lparr>status := Failed, error := err\<rparr>
                      else (queue s ! i)\<lparr>status := Completed\<rparr>)"
  define s2 where "s2 = s\<lparr>queue := (queue s)[i := job1\<lparr>completedAt := Some now\<rparr>],
                  activeJobs := AList.delete jid (activeJobs s)\<rparr>"
  have "qview s2 = qview s"
    using i(1) nq by (simp add: qview_def s2_def job1_def qview_update_nonqueued)
  then have "unscheduled_in_order s2" using f by (rule fifo_transfer)
  then have "unscheduled_in_order (processNext now s2)" by (rule fifo_processNext)
  then show ?thesis using Some by (simp add: completeJob_def Let_def s2_def job1_def)
qed

lemma qview_updateJobStatus:
  assumes inv: "server_inv s" and k: "k < length (drivers s)" and st: "st \<noteq> Queued"
  shows "qview (updateJobStatus (driver_job s k) st s) = qview s"
proof (cases "getJob (driver_job s k) s")
  case None
  then show ?thesis by (simp add: updateJobStatus_def)
next
  case (Some i')
  then have i': "i' < length (queue s)" "job_id (queue s ! i') = driver_job s k"
    using findJob_Some [of "driver_job s k" "queue s" i'] by (simp_all add: getJob_def)
  have "i' = fst (drivers s ! k)"
    using distinct_ids_eq [OF server_invD(2) [OF inv] i'(1) server_inv_driver(1) [OF inv k]] i'(2)
    by (simp add: driver_job_def)
  then have "status (queue s ! i') \<noteq> Queued" using server_inv_driver(2) [OF inv k] by simp
  then show ?thesis using Some i'(1) st
    by (simp add: updateJobStatus_def qview_def qview_update_nonqueued)
qed

lemma qview_frame [simp]:
  "qview (set_pc k pc s) = qview s"
  "qview (inner_catch k msg s) = qview s"
  "qview (snd (acquireSession_bind jid s)) = qview s"
  "qview (leave_request jid s) = qview s"
  "qview (clearTimers s) = qview s"
  "qview (set_leave n lpc s) = qview s"
  "qview (releaseSession_finish jid s) = qview s"
  "qview (startRecording_finish r out s) = qview s"
  "qview (stopRecording_finish r out s) = qview s"
  "qview (cleanup_begin r s) = qview s"
  by (simp_all add: qview_def)

lemma fifo_driver_step:
  assumes inv: "server_inv s" and k: "k < length (drivers s)" and f: "unscheduled_in_order s"
  shows "unscheduled_in_order (driver_step k out now s)"
proof -
  note c = fifo_processJob_catch [OF inv k f]
  have u: "qview (updateJobStatus (job_id (queue s ! fst (drivers s ! k))) InMeeting s) = qview s"
    using qview_updateJobStatus [OF inv k, of InMeeting] by (simp add: driver_job_def)
  have t: "qview s' = qview s \<Longrightarrow> unscheduled_in_order s'" for s'
    using fifo_transfer [OF _ f] by blast
  show ?thesis
    by (cases "snd (drivers s ! k)")
      (simp_all add: driver_step_def Let_def split_beta c u t f split: option.splits await_result.splits)
qed

lemma fifo_leave_step:
  assumes inv: "server_inv s" and k: "k < length (leaves s)" and f: "unscheduled_in_order s"
  shows "unscheduled_in_order (leave_step k out now s)"
proof -
  have t: "qview s' = qview s \<Longrightarrow> unscheduled_in_order s'" for s'
    using fifo_transfer [OF _ f] by blast
  show ?thesis
  proof (cases "leaves s ! k")
    case (L_Released jid)
    then have "jid \<in> leaveIds s" using k by (auto simp: leaveIds_def)
    from fifo_completeJob [OF inv this f] have "unscheduled_in_order (completeJob jid None now s)" .
    then have "unscheduled_in_order (set_leave k L_Done (completeJob jid None now s))"
      by (rule fifo_transfer [rotated]) simp
    then show ?thesis using L_Released by (simp add: leave_step_def)
  qed (simp_all add: leave_step_def releaseSession_begin_def split_beta t f
        split: option.splits await_result.splits)
qed

lemma fifo_step:
  assumes inv: "server_inv s" and en: "enabled e s" and f: "unscheduled_in_order s"
  shows "unscheduled_in_order (step e s)"
proof (cases e)
  case (AddJob url rec sched newId now)
  define s1 where "s1 = s\<lparr>queue := queue s @ [\<lparr>job_id = newId, meetingUrl = url, startRecording = rec,
                 scheduledTime = sched, status = Queued, error = None,
                 createdAt = now, startedAt = None, completedAt = None\<rparr>]\<rparr>"
  have "unscheduled_in_order s1" unfolding unscheduled_in_order_def
  proof (intro allI impI)
    fix i j
    assume a: "i < j \<and> j < length (queue s1) \<and>
            scheduledTime (queue s1 ! i) = None \<and> scheduledTime (queue s1 ! j) = None \<and>
            status (queue s1 ! j) \<noteq> Queued"
    then have j: "j < length (queue s)" by (cases "j = length (queue s)") (auto simp: s1_def)
    then have i: "i < length (queue s)" using a by simp
    have qi: "queue s1 ! i = queue s ! i" using i by (simp add: s1_def nth_append)
    have qj: "queue s1 ! j = queue s ! j" using j by (simp add: s1_def nth_append)
    have "i < j \<and> j < length (queue s) \<and>
            scheduledTime (queue s ! i) = None \<and> scheduledTime (queue s ! j) = None \<and>
            status (queue s ! j) \<noteq> Queued"
      using a j by (simp add: qi qj)
    then have "status (queue s ! i) \<noteq> Queued" using f unfolding unscheduled_in_order_def by blast
    then show "status (queue s1 ! i) \<noteq> Queued" by (simp add: qi)
  qed
  then have "unscheduled_in_order (processNext now s1)" by (rule fifo_processNext)
  then show ?thesis using AddJob by (simp add: addJob_def Let_def s1_def)
next
  case (TimerFire h now)
  define s1 where "s1 = s\<lparr>timeouts := (timeouts s)[h := (timeouts s ! h)\<lparr>timer_state := Fired\<rparr>],
              scheduledTimers := AList.delete (timer_job (timeouts s ! h)) (scheduledTimers s)\<rparr>"
  have "qview s1 = qview s" by (simp add: qview_def s1_def)
  then have "unscheduled_in_order s1" using f by (rule fifo_transfer)
  then have "unscheduled_in_order (processNext now s1)" by (rule fifo_processNext)
  then show ?thesis using TimerFire by (simp add: timerFired_def Let_def s1_def)
next
  case (DriverStep k out now)
  then show ?thesis using fifo_driver_step [OF inv _ f] en by simp
next
  case (LeaveRequest jid)
  have "unscheduled_in_order (leave_request jid s)" using f by (rule fifo_transfer [rotated]) simp
  then show ?thesis using LeaveRequest by simp
next
  case (LeaveStep k out now)
  then show ?thesis using fifo_leave_step [OF inv _ f] en by simp
next
  case ClearTimers
  have "unscheduled_in_order (clearTimers s)" using f by (rule fifo_transfer [rotated]) simp
  then show ?thesis using ClearTimers by simp
qed

lemma fifo_run:
  "server_inv s \<Longrightarrow> unscheduled_in_order s \<Longrightarrow> run es s = Some s' \<Longrightarrow> unscheduled_in_order s'"
proof (induction es arbitrary: s)
  case Nil
  then show ?case by simp
next
  case (Cons e es)
  have en: "enabled e s" and r: "run es (step e s) = Some s'"
    using Cons.prems(3) by (simp_all split: if_splits)
  show ?case
    by (rule Cons.IH [OF inv_step [OF Cons.prems(1) en] fifo_step [OF Cons.prems(1) en Cons.prems(2)] r])
qed

lemma fifo_init: "unscheduled_in_order (init n)"
  by (simp add: unscheduled_in_order_def init_def)

text \<open>
  Claim C2. A dispatch pass looks at the ready jobs in the order of the queue, which is the
  order of submission: the jobs it starts are a beginning of the list of ready jobs, started
  one after the other in that order; every other job is left as it is; and when a ready job
  is not started, the limit is reached. Consequently, in every state that a run of the
  server reaches, when a job without a scheduled time has left \<open>queued\<close>, every job
  without a scheduled time that was submitted before it has left \<open>queued\<close> as well.
\<close>

theorem fifo_dispatch:
  "(processCallback s \<longrightarrow>
      sorted_wrt (<) (readyJobs now s) \<and>
      (\<exists>n \<le> length (readyJobs now s).
         map fst (drivers (processNext now s)) = map fst (drivers s) @ take n (readyJobs now s) \<and>
         (\<forall>i \<in> set (take n (readyJobs now s)).
            queue (processNext now s) ! i =
              (queue s ! i)\<lparr>status := Processing, startedAt := Some now\<rparr>) \<and>
         (\<forall>i. i \<notin> set (take n (readyJobs now s)) \<longrightarrow>
            queue (processNext now s) ! i = queue s ! i) \<and>
         (n < length (readyJobs now s) \<longrightarrow>
            maxConcurrentSessions s \<le> length (activeJobs (processNext now s))))) \<and>
   (run es (init maxc) = Some s' \<longrightarrow> unscheduled_in_order s')"
proof (intro conjI impI)
  show "sorted_wrt (<) (readyJobs now s)" by (rule sorted_readyJobs)
next
  assume "processCallback s"
  then show "\<exists>n \<le> length (readyJobs now s).
         map fst (drivers (processNext now s)) = map fst (drivers s) @ take n (readyJobs now s) \<and>
         (\<forall>i \<in> set (take n (readyJobs now s)).
            queue (processNext now s) ! i =
              (queue s ! i)\<lparr>status := Processing, startedAt := Some now\<rparr>) \<and>
         (\<forall>i. i \<notin> set (take n (readyJobs now s)) \<longrightarrow>
            queue (processNext now s) ! i = queue s ! i) \<and>
         (n < length (readyJobs now s) \<longrightarrow>
            maxConcurrentSessions s \<le> length (activeJobs (processNext now s)))"
    by (rule processNext_prefix)
next
  assume r: "run es (init maxc) = Some s'"
  show "unscheduled_in_order s'"
    by (rule fifo_run [OF inv_init fifo_init r])
qed

theorem fifo_dispatch_witness:
  "processCallback two_queued \<and>
   readyJobs 5 two_queued = [0, 1] \<and>
   sorted_wrt (<) (readyJobs 5 two_queued) \<and>
   map status (queue (processNext 5 two_queued)) = [Processing, Queued] \<and>
   run tr_two (init 1) =
     Some (step (DriverStep 0 (Resolve True) 12)
            (step (AddJob ''https://meet.google.com/y'' True None ''b'' 11)
              (step (AddJob ''https://meet.google.com/x'' True None ''a'' 10) (init 1)))) \<and>
   unscheduled_in_order (step (DriverStep 0 (Resolve True) 12)
            (step (AddJob ''https://meet.google.com/y'' True None ''b'' 11)
              (step (AddJob ''https://meet.google.com/x'' True None ''a'' 10) (init 1))))"
proof -
  have cb: "processCallback two_queued" by (simp add: two_queued_def init_def)
  have rj: "readyJobs 5 two_queued = [0, 1]" by code_simp
  have st: "map status (queue (processNext 5 two_queued)) = [Processing, Queued]" by code_simp
  have r: "run tr_two (init 1) =
     Some (step (DriverStep 0 (Resolve True) 12)
            (step (AddJob ''https://meet.google.com/y'' True None ''b'' 11)
              (step (AddJob ''https://meet.google.com/x'' True None ''a'' 10) (init 1))))"
    by code_simp
  from fifo_dispatch [of two_queued 5 tr_two 1 "step (DriverStep 0 (Resolve True) 12)
            (step (AddJob ''https://meet.google.com/y'' True None ''b'' 11)
              (step (AddJob ''https://meet.google.com/x'' True None ''a'' 10) (init 1)))"] cb r
  have "sorted_wrt (<) (readyJobs 5 two_queued)"
    and "unscheduled_in_order (step (DriverStep 0 (Resolve True) 12)
            (step (AddJob ''https://meet.google.com/y'' True None ''b'' 11)
              (step (AddJob ''https://meet.google.com/x'' True None ''a'' 10) (init 1))))"
    by blast+
  then show ?thesis using cb rj st r by blast
qed

section \<open>Writes to the status of a job\<close>

lemma not_ready_nonqueued: "status (queue s ! i) \<noteq> Queued \<Longrightarrow> i \<notin> set (readyJobs now s)"
  by (simp add: readyJobs_def isReady_def)

text \<open>
  Claim C3, as amended. A dispatch pass never changes a job that is \<open>completed\<close> or
  \<open>failed\<close>. \<open>updateJobStatus\<close> and \<open>completeJob\<close> do not look at the status the job
  has: for a job that \<open>getJob\<close> finds, \<open>updateJobStatus\<close> sets the status it is given,
  and \<open>completeJob\<close> sets \<open>failed\<close> or \<open>completed\<close>, also when the job was
  \<open>completed\<close> or \<open>failed\<close> before.
\<close>

theorem status_writes_unguarded:
  assumes "getJob jobId s = Some i"
  shows "status (queue (updateJobStatus jobId st s) ! i) = st \<and>
         status (queue (completeJob jobId err now s) ! i) =
           (if err \<noteq> None \<and> err \<noteq> Some [] then Failed else Completed) \<and>
         (status (queue s ! m) = Completed \<or> status (queue s ! m) = Failed \<longrightarrow>
            queue (processNext now s) ! m = queue s ! m)"
proof (intro conjI impI)
  have i: "i < length (queue s)" using findJob_Some [of jobId "queue s" i] assms by (simp add: getJob_def)
  show "status (queue (updateJobStatus jobId st s) ! i) = st"
    using assms i by (simp add: updateJobStatus_def)
  define job1 where "job1 = (if err \<noteq> None \<and> err \<noteq> Some []
                      then (queue s ! i)\<lparr>status := Failed, error := err\<rparr>
                      else (queue s ! i)\<lparr>status := Completed\<rparr>)"
  define s2 where "s2 = s\<lparr>queue := (queue s)[i := job1\<lparr>completedAt := Some now\<rparr>],
                  activeJobs := AList.delete jobId (activeJobs s)\<rparr>"
  have st2: "status (queue s2 ! i) = (if err \<noteq> None \<and> err \<noteq> Some [] then Failed else Completed)"
    using i by (simp add: s2_def job1_def)
  then have "i \<notin> set (readyJobs now s2)" by (intro not_ready_nonqueued) simp
  then have "queue (processNext now s2) ! i = queue s2 ! i" by (rule processNext_other)
  then show "status (queue (completeJob jobId err now s) ! i) =
           (if err \<noteq> None \<and> err \<noteq> Some [] then Failed else Completed)"
    using assms st2 by (simp add: completeJob_def Let_def s2_def job1_def)
next
  assume "status (queue s ! m) = Completed \<or> status (queue s ! m) = Failed"
  then have "m \<notin> set (readyJobs now s)" by (intro not_ready_nonqueued) auto
  then show "queue (processNext now s) ! m = queue s ! m" by (rule processNext_other)
qed

theorem status_writes_unguarded_witness:
  "getJob ''a'' leave_early_state = Some 0 \<and>
   status (queue leave_early_state ! 0) = Completed \<and>
   status (queue (updateJobStatus ''a'' InMeeting leave_early_state) ! 0) = InMeeting \<and>
   status (queue (completeJob ''a'' (Some ''gone'') 20 leave_early_state) ! 0) = Failed \<and>
   queue (processNext 20 leave_early_state) ! 0 = queue leave_early_state ! 0"
proof -
  have g: "getJob ''a'' leave_early_state = Some 0" by code_simp
  have c: "status (queue leave_early_state ! 0) = Completed" by code_simp
  from status_writes_unguarded [OF g, of InMeeting "Some ''gone''" 20 0] c g
  show ?thesis by simp
qed

text \<open>
  Claim C3 as stated fails: in the run \<open>tr_leave_early\<close> the job is \<open>completed\<close>; when
  \<open>joinMeeting\<close> then reports failure, the processor releases and throws, and the
  \<open>catch\<close> block of \<open>processJob\<close> marks the job \<open>failed\<close>. On the same state the
  mark-active call sets \<open>in-meeting\<close>, though the job is not \<open>processing\<close>.
\<close>

theorem terminal_status_changed:
  "run tr_leave_early (init 1) = Some leave_early_state \<and>
   status (queue leave_early_state ! 0) = Completed \<and>
   status (queue (step (DriverStep 0 (Resolve False) 17)
                   (step (DriverStep 0 (Resolve False) 16) leave_early_state)) ! 0) = Failed \<and>
   status (queue (updateJobStatus ''a'' InMeeting leave_early_state) ! 0) = InMeeting"
  by code_simp

section \<open>Acquisition of sessions\<close>

text \<open>
  Claim C7 fails on the code: \<open>acquireSession\<close> checks the limit, then waits for
  \<open>MeetingSession.create\<close>, and binds the session only afterwards. With a limit of one
  and an empty pool, two calls both pass the check before either binds, and the pool ends
  with two sessions.
\<close>

theorem acquireSession_check_then_bind:
  "maxConcurrentSessions (init 1) = 1 \<and>
   acquireSession_check ''a'' (init 1) = D_Creating \<and>
   acquireSession_check ''b'' (init 1) = D_Creating \<and>
   length (activeSessions
     (snd (acquireSession_bind ''b'' (snd (acquireSession_bind ''a'' (init 1)))))) = 2"
  by code_simp

lemma dispatch_full: "maxConcurrentSessions s \<le> length (activeJobs s) \<Longrightarrow> dispatch now xs s = s"
  by (cases xs) simp_all

lemma readyJobs_queue_cong: "queue s' = queue s \<Longrightarrow> readyJobs now s' = readyJobs now s"
  by (simp add: readyJobs_def)

lemma processJob_catch_self:
  assumes "k < length (drivers s)" "fst (drivers s ! k) < length (queue s)"
  shows "queue (processJob_catch k msg now s) ! fst (drivers s ! k) =
     (queue s ! fst (drivers s ! k))\<lparr>status := Failed, error := Some msg, completedAt := Some now\<rparr>"
proof -
  define i where "i = fst (drivers s ! k)"
  define s3 where "s3 = s\<lparr>queue := (queue s)[i := (queue s ! i)\<lparr>status := Failed, error := Some msg,
                                           completedAt := Some now\<rparr>],
              activeJobs := AList.delete (job_id (queue s ! i)) (activeJobs s),
              drivers := (drivers s)[k := (i, D_Failed)]\<rparr>"
  have q: "queue s3 ! i = (queue s ! i)\<lparr>status := Failed, error := Some msg, completedAt := Some now\<rparr>"
    using assms(2) by (simp add: s3_def i_def)
  then have "i \<notin> set (readyJobs now s3)" by (intro not_ready_nonqueued) simp
  then have "queue (processNext now s3) ! i = queue s3 ! i" by (rule processNext_other)
  then show ?thesis using q by (simp add: processJob_catch_def Let_def s3_def i_def)
qed

text \<open>
  Claim C5, as amended. When the pool is at its limit and no session is bound to the job,
  \<open>acquireSession\<close> returns \<open>null\<close>; it writes nothing on that path. The back-pressure
  that keeps a job \<open>queued\<close> is the check of the queue: when \<open>activeJobs\<close> is at the
  limit, a dispatch pass starts no job, every job stays as it is, and the ready jobs are
  ready again in the next pass. A job whose processor gets \<open>null\<close> from
  \<open>acquireSession\<close> is already \<open>processing\<close>; the processor throws, and the job is
  marked \<open>failed\<close> with the error \<open>No session slot available\<close>. In the runs of the server
  no processor ever gets \<open>null\<close>, since the queue admits a job only below the limit.
\<close>

theorem capacity_backpressure:
  "(browser s \<and> map_of (activeSessions s) jobId = None \<and>
      maxConcurrentSessions s \<le> length (activeSessions s) \<longrightarrow>
        acquireSession_check jobId s = D_AcqResolved None) \<and>
   (processCallback s \<and> maxConcurrentSessions s \<le> length (activeJobs s) \<longrightarrow>
      queue (processNext now s) = queue s \<and>
      activeJobs (processNext now s) = activeJobs s \<and>
      drivers (processNext now s) = drivers s \<and>
      readyJobs now' (processNext now s) = readyJobs now' s) \<and>
   (k < length (drivers s) \<and> fst (drivers s ! k) < length (queue s) \<and>
      snd (drivers s ! k) = D_AcqResolved None \<longrightarrow>
        status (queue (driver_step k out now s) ! fst (drivers s ! k)) = Failed \<and>
        error (queue (driver_step k out now s) ! fst (drivers s ! k)) =
          Some ''No session slot available'') \<and>
   (run es (init maxc) = Some s' \<and> k' < length (drivers s') \<longrightarrow>
      snd (drivers s' ! k') \<noteq> D_AcqResolved None)"
proof (intro conjI impI; (elim conjE)?)
  assume "browser s" "map_of (activeSessions s) jobId = None"
    "maxConcurrentSessions s \<le> length (activeSessions s)"
  then show "acquireSession_check jobId s = D_AcqResolved None"
    by (simp add: acquireSession_check_def)
next
  assume a: "processCallback s" "maxConcurrentSessions s \<le> length (activeJobs s)"
  then have eq: "processNext now s = scheduleUpcomingJobs now s"
    by (simp add: processNext_def dispatch_full)
  show "queue (processNext now s) = queue s" "activeJobs (processNext now s) = activeJobs s"
    "drivers (processNext now s) = drivers s"
    by (simp_all add: eq)
  show "readyJobs now' (processNext now s) = readyJobs now' s"
    by (rule readyJobs_queue_cong) (simp add: eq)
next
  assume a: "k < length (drivers s)" "fst (drivers s ! k) < length (queue s)"
    "snd (drivers s ! k) = D_AcqResolved None"
  have "driver_step k out now s = processJob_catch k ''No session slot available'' now s"
    using a(3) by (simp add: driver_step_def Let_def)
  then show "status (queue (driver_step k out now s) ! fst (drivers s ! k)) = Failed"
    "error (queue (driver_step k out now s) ! fst (drivers s ! k)) = Some ''No session slot available''"
    using processJob_catch_self [OF a(1,2), of "''No session slot available''" now] by simp_all
next
  assume "run es (init maxc) = Some s'" "k' < length (drivers s')"
  then show "snd (drivers s' ! k') \<noteq> D_AcqResolved None"
    using server_inv_driver(3) [OF inv_reachable] by blast
qed

theorem capacity_backpressure_witness:
  "acquireSession_check ''b'' pool_full_dispatched = D_AcqResolved None \<and>
   queue (processNext 6 pool_full_dispatched) = queue pool_full_dispatched \<and>
   status (queue (driver_step 0 (Resolve True) 6 pool_full_dispatched) ! 0) = Failed \<and>
   run tr_two (init 1) =
     Some (step (DriverStep 0 (Resolve True) 12)
            (step (AddJob ''https://meet.google.com/y'' True None ''b'' 11)
              (step (AddJob ''https://meet.google.com/x'' True None ''a'' 10) (init 1)))) \<and>
   snd (drivers (step (DriverStep 0 (Resolve True) 12)
            (step (AddJob ''https://meet.google.com/y'' True None ''b'' 11)
              (step (AddJob ''https://meet.google.com/x'' True None ''a'' 10) (init 1)))) ! 0)
     \<noteq> D_AcqResolved None"
proof -
  have h1: "browser pool_full_dispatched \<and> map_of (activeSessions pool_full_dispatched) ''b'' = None \<and>
      maxConcurrentSessions pool_full_dispatched \<le> length (activeSessions pool_full_dispatched)"
    by code_simp
  have h2: "processCallback pool_full_dispatched \<and>
      maxConcurrentSessions pool_full_dispatched \<le> length (activeJobs pool_full_dispatched)"
    by code_simp
  have h3: "0 < length (drivers pool_full_dispatched) \<and>
      fst (drivers pool_full_dispatched ! 0) < length (queue pool_full_dispatched) \<and>
      snd (drivers pool_full_dispatched ! 0) = D_AcqResolved None"
    by code_simp
  have f0: "fst (drivers pool_full_dispatched ! 0) = 0" by code_simp
  have r: "run tr_two (init 1) =
     Some (step (DriverStep 0 (Resolve True) 12)
            (step (AddJob ''https://meet.google.com/y'' True None ''b'' 11)
              (step (AddJob ''https://meet.google.com/x'' True None ''a'' 10) (init 1))))"
    by code_simp
  have h4: "0 < length (drivers (step (DriverStep 0 (Resolve True) 12)
            (step (AddJob ''https://meet.google.com/y'' True None ''b'' 11)
              (step (AddJob ''https://meet.google.com/x'' True None ''a'' 10) (init 1)))))"
    by code_simp
  from capacity_backpressure [of pool_full_dispatched "''b''" 6 6 0 "Resolve True" tr_two 1
      "step (DriverStep 0 (Resolve True) 12)
            (step (AddJob ''https://meet.google.com/y'' True None ''b'' 11)
              (step (AddJob ''https://meet.google.com/x'' True None ''a'' 10) (init 1)))" 0]
    h1 h2 h3 h4 r f0
  show ?thesis by simp
qed

text \<open>
  Claim C5 as stated fails where \<open>acquireSession\<close> finds the pool at its limit: in
  \<open>pool_full\<close> the queue has a free slot and the pool has none; the dispatch pass starts
  the job, \<open>acquireSession\<close> returns \<open>null\<close>, and the job does not stay \<open>queued\<close>: it
  is marked \<open>failed\<close>.
\<close>

theorem null_session_fails_job:
  "length (activeJobs pool_full) < maxConcurrentSessions pool_full \<and>
   maxConcurrentSessions pool_full \<le> length (activeSessions pool_full) \<and>
   status (queue pool_full ! 0) = Queued \<and>
   drivers (processNext 5 pool_full) = [(0, D_AcqResolved None)] \<and>
   status (queue (driver_step 0 (Resolve True) 6 (processNext 5 pool_full)) ! 0) = Failed \<and>
   error (queue (driver_step 0 (Resolve True) 6 (processNext 5 pool_full)) ! 0) =
     Some ''No session slot available''"
  by code_simp

section \<open>Failure of the processor\<close>

lemma job_id_processJob: "job_id (queue (processJob now x s) ! j) = job_id (queue s ! j)"
proof (cases "processCallback s \<and> j = x \<and> x < length (queue s)")
  case True
  then show ?thesis by (simp add: processJob_def Let_def)
next
  case False
  then show ?thesis by (cases "j = x") (auto simp: processJob_def Let_def list_update_beyond)
qed

lemma keysJ_processJob: "keysJ (processJob now x s) \<subseteq> insert (job_id (queue s ! x)) (keysJ s)"
  by (auto simp: processJob_def Let_def keysJ_def)

lemma keysJ_dispatch:
  "keysJ (dispatch now xs s) \<subseteq> keysJ s \<union> (\<lambda>j. job_id (queue s ! j)) ` set xs"
proof (induction xs arbitrary: s)
  case Nil
  then show ?case by simp
next
  case (Cons x xs)
  show ?case
  proof (cases "maxConcurrentSessions s \<le> length (activeJobs s)")
    case True
    then show ?thesis by auto
  next
    case False
    have "keysJ (dispatch now xs (processJob now x s)) \<subseteq>
        keysJ (processJob now x s) \<union> (\<lambda>j. job_id (queue (processJob now x s) ! j)) ` set xs"
      by (rule Cons.IH)
    also have "\<dots> \<subseteq> insert (job_id (queue s ! x)) (keysJ s) \<union> (\<lambda>j. job_id (queue s ! j)) ` set xs"
      using keysJ_processJob [of now x s] by (auto simp: job_id_processJob)
    finally show ?thesis using False by auto
  qed
qed

lemma keysJ_processNext:
  "keysJ (processNext now s) \<subseteq> keysJ s \<union> (\<lambda>j. job_id (queue s ! j)) ` set (readyJobs now s)"
  using keysJ_dispatch [of now "readyJobs now s" s]
  by (simp add: processNext_def keysJ_def)

lemma processNext_uses_capacity:
  assumes "processCallback s"
  shows "maxConcurrentSessions s \<le> length (activeJobs (processNext now s)) \<or>
         readyJobs now (processNext now s) = []"
proof -
  from processNext_prefix [OF assms, of now] obtain n where n: "n \<le> length (readyJobs now s)"
    and st: "\<forall>i \<in> set (take n (readyJobs now s)).
        queue (processNext now s) ! i = (queue s ! i)\<lparr>status := Processing, startedAt := Some now\<rparr>"
    and ot: "\<forall>i. i \<notin> set (take n (readyJobs now s)) \<longrightarrow> queue (processNext now s) ! i = queue s ! i"
    and cap: "n < length (readyJobs now s) \<longrightarrow>
        maxConcurrentSessions s \<le> length (activeJobs (processNext now s))"
    by blast
  show ?thesis
  proof (cases "n < length (readyJobs now s)")
    case True
    then show ?thesis using cap by simp
  next
    case False
    then have all: "take n (readyJobs now s) = readyJobs now s" using n by simp
    have "\<not> isReady now (queue (processNext now s) ! i)" if "i < length (queue s)" for i
    proof (cases "i \<in> set (readyJobs now s)")
      case True
      then show ?thesis using st all by (simp add: isReady_def)
    next
      case False
      then have "queue (processNext now s) ! i = queue s ! i" using ot all by simp
      then show ?thesis using False that by (simp add: readyJobs_def)
    qed
    then have "readyJobs now (processNext now s) = []"
      by (simp add: readyJobs_def filter_empty_conv)
    then show ?thesis by simp
  qed
qed

lemma processJob_catch_frees:
  assumes inv: "server_inv s" and k: "k < length (drivers s)"
  shows "driver_job s k \<notin> keysJ (processJob_catch k msg now s)"
proof -
  define i where "i = fst (drivers s ! k)"
  define s3 where "s3 = s\<lparr>queue := (queue s)[i := (queue s ! i)\<lparr>status := Failed, error := Some msg,
                                           completedAt := Some now\<rparr>],
              activeJobs := AList.delete (job_id (queue s ! i)) (activeJobs s),
              drivers := (drivers s)[k := (i, D_Failed)]\<rparr>"
  have il: "i < length (queue s)" using server_inv_driver(1) [OF inv k] by (simp add: i_def)
  have eq: "processJob_catch k msg now s = processNext now s3"
    by (simp add: processJob_catch_def Let_def s3_def i_def)
  have dj: "driver_job s k = job_id (queue s ! i)" by (simp add: driver_job_def i_def)
  have "keysJ s3 = keysJ s - {job_id (queue s ! i)}"
    using delete_keys [of "job_id (queue s ! i)" "activeJobs s"]
    by (simp add: keysJ_def s3_def flip: set_map)
  then have 1: "job_id (queue s ! i) \<notin> keysJ s3" by simp
  have 2: "job_id (queue s ! i) \<noteq> job_id (queue s3 ! j)" if "j \<in> set (readyJobs now s3)" for j
  proof
    assume e: "job_id (queue s ! i) = job_id (queue s3 ! j)"
    have j: "j < length (queue s)" "status (queue s3 ! j) = Queued"
      using that by (simp_all add: readyJobs_def isReady_def s3_def)
    then have ne: "j \<noteq> i" using il by (auto simp: s3_def)
    then have "job_id (queue s3 ! j) = job_id (queue s ! j)" by (simp add: s3_def)
    then have "i = j" using distinct_ids_eq [OF server_invD(2) [OF inv] il j(1)] e by simp
    then show False using ne by simp
  qed
  show ?thesis using keysJ_processNext [of now s3] 1 2 unfolding eq dj by blast
qed

lemma processJob_catch_sessions [simp]:
  "activeSessions (processJob_catch k msg now s) = activeSessions s"
  by (simp add: processJob_catch_def Let_def)

text \<open>
  Claim C4. When the promise of the processor rejects in a run of the server, which is at
  the step from a suspension point with \<open>throws_msg\<close>, the step is the \<open>catch\<close> block of
  \<open>processJob\<close>, ending in a dispatch pass. Afterwards the job is \<open>failed\<close>, its error is
  the message and \<open>completedAt\<close> is stamped; its id is in neither \<open>activeJobs\<close> nor
  \<open>activeSessions\<close>; and the pass has used the capacity: the queue is at its limit or no
  ready job is left waiting.
\<close>

theorem failed_driver_frees_slot:
  assumes "run es (init maxc) = Some s" and "k < length (drivers s)"
    and "throws_msg (snd (drivers s ! k)) = Some msg"
  shows "driver_step k out now s = processJob_catch k msg now s \<and>
         status (queue (driver_step k out now s) ! fst (drivers s ! k)) = Failed \<and>
         error (queue (driver_step k out now s) ! fst (drivers s ! k)) = Some msg \<and>
         completedAt (queue (driver_step k out now s) ! fst (drivers s ! k)) = Some now \<and>
         driver_job s k \<notin> keysJ (driver_step k out now s) \<and>
         driver_job s k \<notin> keysS (driver_step k out now s) \<and>
         (maxc \<le> length (activeJobs (driver_step k out now s)) \<or>
          readyJobs now (driver_step k out now s) = [])"
proof -
  have inv: "server_inv s" using assms(1) by (rule inv_reachable)
  have mx: "maxConcurrentSessions s = maxc" using run_max [OF assms(1)] by (simp add: init_def)
  have eq: "driver_step k out now s = processJob_catch k msg now s"
    using assms(3)
    by (cases "snd (drivers s ! k)" rule: throws_msg.cases)
      (auto simp: driver_step_def Let_def)
  have ub: "unbound_pc (snd (drivers s ! k))"
    using assms(3) by (cases "snd (drivers s ! k)" rule: throws_msg.cases) auto
  have il: "fst (drivers s ! k) < length (queue s)" by (rule server_inv_driver(1) [OF inv assms(2)])
  have nS: "driver_job s k \<notin> keysS (processJob_catch k msg now s)"
    using server_inv_driver(6) [OF inv assms(2) ub] by (simp add: keysS_def)
  define i where "i = fst (drivers s ! k)"
  define s3 where "s3 = s\<lparr>queue := (queue s)[i := (queue s ! i)\<lparr>status := Failed, error := Some msg,
                                           completedAt := Some now\<rparr>],
              activeJobs := AList.delete (job_id (queue s ! i)) (activeJobs s),
              drivers := (drivers s)[k := (i, D_Failed)]\<rparr>"
  have eq3: "processJob_catch k msg now s = processNext now s3"
    by (simp add: processJob_catch_def Let_def s3_def i_def)
  have "processCallback s3" using server_invD(1) [OF inv] by (simp add: s3_def)
  from processNext_uses_capacity [OF this, of now]
  have cap: "maxc \<le> length (activeJobs (processJob_catch k msg now s)) \<or>
          readyJobs now (processJob_catch k msg now s) = []"
    unfolding eq3 using mx by (simp add: s3_def)
  show ?thesis unfolding eq
    using processJob_catch_self [OF assms(2) il, of msg now]
      processJob_catch_frees [OF inv assms(2), of msg now] nS cap
    by simp
qed

theorem failed_driver_frees_slot_witness:
  "run tr_join_fails (init 1) = Some join_failed_state \<and>
   snd (drivers join_failed_state ! 0) = D_Released ''Failed to join meeting'' \<and>
   status (queue (driver_step 0 (Resolve True) 16 join_failed_state) ! 0) = Failed \<and>
   error (queue (driver_step 0 (Resolve True) 16 join_failed_state) ! 0) =
     Some ''Failed to join meeting'' \<and>
   ''a'' \<notin> keysJ (driver_step 0 (Resolve True) 16 join_failed_state) \<and>
   ''a'' \<notin> keysS (driver_step 0 (Resolve True) 16 join_failed_state) \<and>
   status (queue (driver_step 0 (Resolve True) 16 join_failed_state) ! 1) = Processing"
proof -
  have r: "run tr_join_fails (init 1) = Some join_failed_state" by code_simp
  have k: "0 < length (drivers join_failed_state)" by code_simp
  have pc: "snd (drivers join_failed_state ! 0) = D_Released ''Failed to join meeting''" by code_simp
  then have t: "throws_msg (snd (drivers join_failed_state ! 0)) = Some ''Failed to join meeting''"
    by simp
  have f: "fst (drivers join_failed_state ! 0) = 0" by code_simp
  have dj: "driver_job join_failed_state 0 = ''a''" by code_simp
  have p: "status (queue (driver_step 0 (Resolve True) 16 join_failed_state) ! 1) = Processing"
    by code_simp
  from failed_driver_frees_slot [OF r k t, of "Resolve True" 16, THEN conjunct2] r pc p
  show ?thesis by (simp add: f dj)
qed

section \<open>Failure to start the recording\<close>

lemma set_pc_frame [simp]:
  "activeJobs (set_pc k pc s) = activeJobs s" "activeSessions (set_pc k pc s) = activeSessions s"
  "sessions (set_pc k pc s) = sessions s" "leaves (set_pc k pc s) = leaves s"
  "k < length (drivers s) \<Longrightarrow> snd (drivers (set_pc k pc s) ! k) = pc"
  by (simp_all add: set_pc_def)

lemma updateJobStatus_driver:
  assumes inv: "server_inv s" and k: "k < length (drivers s)"
  shows "status (queue (updateJobStatus (driver_job s k) st s) ! fst (drivers s ! k)) = st"
proof (cases "getJob (driver_job s k) s")
  case None
  have "job_id (queue s ! fst (drivers s ! k)) \<in> set (map job_id (queue s))"
    using server_inv_driver(1) [OF inv k] by simp
  moreover have "findJob jid q = None \<Longrightarrow> jid \<notin> set (map job_id q)" for jid q
    by (induction q) (auto split: if_splits)
  ultimately show ?thesis using None by (auto simp: getJob_def driver_job_def)
next
  case (Some i')
  then have i': "i' < length (queue s)" "job_id (queue s ! i') = driver_job s k"
    using findJob_Some [of "driver_job s k" "queue s" i'] by (simp_all add: getJob_def)
  have "i' = fst (drivers s ! k)"
    using distinct_ids_eq [OF server_invD(2) [OF inv] i'(1) server_inv_driver(1) [OF inv k]] i'(2)
    by (simp add: driver_job_def)
  then show ?thesis using Some i'(1) by (simp add: updateJobStatus_def)
qed

lemma not_recording_check [simp]: "\<not> recording_pc (acquireSession_check jid s)"
  by (simp add: acquireSession_check_def split: option.splits)

lemma dispatch_drivers:
  "\<exists>ds. drivers (dispatch now xs s) = drivers s @ ds \<and> (\<forall>d \<in> set ds. \<not> recording_pc (snd d))"
proof (induction xs arbitrary: s)
  case Nil
  then show ?case by simp
next
  case (Cons x xs)
  show ?case
  proof (cases "maxConcurrentSessions s \<le> length (activeJobs s)")
    case True
    then show ?thesis by simp
  next
    case False
    obtain d0 where d0: "drivers (processJob now x s) = drivers s @ d0" "\<forall>d \<in> set d0. \<not> recording_pc (snd d)"
      by (cases "processCallback s") (simp_all add: processJob_def Let_def)
    from Cons.IH [of "processJob now x s"] obtain ds where
      ds: "drivers (dispatch now xs (processJob now x s)) = drivers (processJob now x s) @ ds"
        "\<forall>d \<in> set ds. \<not> recording_pc (snd d)" by blast
    have "drivers (dispatch now (x # xs) s) = drivers s @ (d0 @ ds)" using False d0(1) ds(1) by simp
    moreover have "\<forall>d \<in> set (d0 @ ds). \<not> recording_pc (snd d)" using d0(2) ds(2) by auto
    ultimately show ?thesis by blast
  qed
qed

lemma processNext_drivers:
  "\<exists>ds. drivers (processNext now s) = drivers s @ ds \<and> (\<forall>d \<in> set ds. \<not> recording_pc (snd d))"
  using dispatch_drivers [of now "readyJobs now s" s] by (simp add: processNext_def)

lemma joined_processNext:
  assumes J: "recording_jobs_joined s"
  shows "recording_jobs_joined (processNext now s)"
  unfolding recording_jobs_joined_def
proof (intro allI impI)
  fix k assume k: "k < length (drivers (processNext now s))"
    and pc: "recording_pc (snd (drivers (processNext now s) ! k))"
  obtain ds where ds: "drivers (processNext now s) = drivers s @ ds"
    "\<forall>d \<in> set ds. \<not> recording_pc (snd d)" using processNext_drivers by blast
  have kl: "k < length (drivers s)"
  proof (rule ccontr)
    assume "\<not> k < length (drivers s)"
    then have "drivers (processNext now s) ! k \<in> set ds" using k ds(1) by (simp add: nth_append)
    then show False using ds(2) pc by blast
  qed
  then have same: "drivers (processNext now s) ! k = drivers s ! k" using ds(1) by (simp add: nth_append)
  have j: "status (queue s ! fst (drivers s ! k)) = InMeeting \<or>
           status (queue s ! fst (drivers s ! k)) = Completed"
    using J kl pc same unfolding recording_jobs_joined_def by simp
  then have "status (queue s ! fst (drivers s ! k)) \<noteq> Queued" by auto
  then have "fst (drivers s ! k) \<notin> set (readyJobs now s)" by (rule not_ready_nonqueued)
  then have "queue (processNext now s) ! fst (drivers s ! k) = queue s ! fst (drivers s ! k)"
    by (rule processNext_other)
  then show "status (queue (processNext now s) ! fst (drivers (processNext now s) ! k)) = InMeeting \<or>
        status (queue (processNext now s) ! fst (drivers (processNext now s) ! k)) = Completed"
    using j same by simp
qed

lemma joined_cong:
  "queue s' = queue s \<Longrightarrow> drivers s' = drivers s \<Longrightarrow>
   recording_jobs_joined s' = recording_jobs_joined s"
  by (simp add: recording_jobs_joined_def)

lemma joined_set_pc:
  assumes J: "recording_jobs_joined s" and k: "k < length (drivers s)"
    and pc: "recording_pc pc \<Longrightarrow> status (queue s ! fst (drivers s ! k)) = InMeeting \<or>
               status (queue s ! fst (drivers s ! k)) = Completed"
  shows "recording_jobs_joined (set_pc k pc s)"
  unfolding recording_jobs_joined_def
proof (intro allI impI)
  fix n assume n: "n < length (drivers (set_pc k pc s))"
    and r: "recording_pc (snd (drivers (set_pc k pc s) ! n))"
  have nl: "n < length (drivers s)" using n by (simp add: set_pc_def)
  show "status (queue (set_pc k pc s) ! fst (drivers (set_pc k pc s) ! n)) = InMeeting \<or>
        status (queue (set_pc k pc s) ! fst (drivers (set_pc k pc s) ! n)) = Completed"
  proof (cases "n = k")
    case True
    then show ?thesis using pc r k by (simp add: set_pc_def)
  next
    case False
    then show ?thesis using J nl r unfolding recording_jobs_joined_def by (simp add: set_pc_def)
  qed
qed

lemma joined_set_pc_other:
  assumes "recording_jobs_joined s" "k < length (drivers s)" "\<not> recording_pc pc"
  shows "recording_jobs_joined (set_pc k pc s)"
  using assms by (intro joined_set_pc) auto

lemma joined_sessions_only [simp]:
  "recording_jobs_joined (cleanup_begin r s) = recording_jobs_joined s"
  "recording_jobs_joined (startRecording_finish r out s) = recording_jobs_joined s"
  "recording_jobs_joined (stopRecording_finish r out s) = recording_jobs_joined s"
  "recording_jobs_joined (releaseSession_finish jid s) = recording_jobs_joined s"
  "recording_jobs_joined (snd (acquireSession_bind jid s)) = recording_jobs_joined s"
  "recording_jobs_joined (set_leave n lpc s) = recording_jobs_joined s"
  "recording_jobs_joined (leave_request jid s) = recording_jobs_joined s"
  "recording_jobs_joined (clearTimers s) = recording_jobs_joined s"
  by (rule joined_cong; simp add: acquireSession_bind_def set_leave_def leave_request_def
      clearTimers_def Let_def split: option.splits)+

lemma joined_inner_catch:
  assumes J: "recording_jobs_joined s" and k: "k < length (drivers s)"
  shows "recording_jobs_joined (inner_catch k msg s)"
proof (cases "map_of (activeSessions s) (job_id (queue s ! fst (drivers s ! k)))")
  case None
  then show ?thesis using joined_set_pc_other [OF J k, of "D_Released msg"]
    by (simp add: inner_catch_def releaseSession_begin_def Let_def)
next
  case (Some r)
  have "recording_jobs_joined (set_pc k (D_Cleanup msg) (cleanup_begin r s))"
    using J k by (intro joined_set_pc) simp_all
  then show ?thesis using Some
    by (simp add: inner_catch_def releaseSession_begin_def Let_def)
qed

lemma joined_processJob_catch:
  assumes inv: "server_inv s" and J: "recording_jobs_joined s" and k: "k < length (drivers s)"
  shows "recording_jobs_joined (processJob_catch k msg now s)"
proof -
  define i where "i = fst (drivers s ! k)"
  define s3 where "s3 = s\<lparr>queue := (queue s)[i := (queue s ! i)\<lparr>status := Failed, error := Some msg,
                                           completedAt := Some now\<rparr>],
              activeJobs := AList.delete (job_id (queue s ! i)) (activeJobs s),
              drivers := (drivers s)[k := (i, D_Failed)]\<rparr>"
  have "recording_jobs_joined s3"
    unfolding recording_jobs_joined_def
  proof (intro allI impI)
    fix n assume n: "n < length (drivers s3)" and r: "recording_pc (snd (drivers s3 ! n))"
    have nl: "n < length (drivers s)" using n by (simp add: s3_def)
    have nk: "n \<noteq> k" using r k by (auto simp: s3_def)
    then have dn: "drivers s3 ! n = drivers s ! n" by (simp add: s3_def)
    have "map fst (drivers s) ! n \<noteq> map fst (drivers s) ! k"
      using server_invD(7) [OF inv] nl k nk by (simp add: nth_eq_iff_index_eq del: nth_map)
    then have ne: "fst (drivers s ! n) \<noteq> i" using nl k by (simp add: i_def)
    then have "queue s3 ! fst (drivers s ! n) = queue s ! fst (drivers s ! n)" by (simp add: s3_def)
    then show "status (queue s3 ! fst (drivers s3 ! n)) = InMeeting \<or>
        status (queue s3 ! fst (drivers s3 ! n)) = Completed"
      using J nl r dn unfolding recording_jobs_joined_def by simp
  qed
  then have "recording_jobs_joined (processNext now s3)" by (rule joined_processNext)
  then show ?thesis by (simp add: processJob_catch_def Let_def s3_def i_def)
qed

lemma joined_job_update:
  assumes J: "recording_jobs_joined s"
    and st: "status job = InMeeting \<or> status job = Completed"
  shows "recording_jobs_joined (s\<lparr>queue := (queue s)[i := job]\<rparr>)"
  unfolding recording_jobs_joined_def
proof (intro allI impI)
  fix n assume n: "n < length (drivers (s\<lparr>queue := (queue s)[i := job]\<rparr>))"
    and r: "recording_pc (snd (drivers (s\<lparr>queue := (queue s)[i := job]\<rparr>) ! n))"
  have old: "status (queue s ! fst (drivers s ! n)) = InMeeting \<or>
        status (queue s ! fst (drivers s ! n)) = Completed"
    using J n r unfolding recording_jobs_joined_def by simp
  have "(queue s)[i := job] ! fst (drivers s ! n) = job \<or>
        (queue s)[i := job] ! fst (drivers s ! n) = queue s ! fst (drivers s ! n)"
    by (cases "i < length (queue s)") (auto simp: nth_list_update list_update_beyond)
  then show "status (queue (s\<lparr>queue := (queue s)[i := job]\<rparr>) !
                fst (drivers (s\<lparr>queue := (queue s)[i := job]\<rparr>) ! n)) = InMeeting \<or>
        status (queue (s\<lparr>queue := (queue s)[i := job]\<rparr>) !
                fst (drivers (s\<lparr>queue := (queue s)[i := job]\<rparr>) ! n)) = Completed"
    using old st by auto
qed

lemma joined_updateJobStatus:
  assumes J: "recording_jobs_joined s"
  shows "recording_jobs_joined (updateJobStatus jid InMeeting s)"
proof (cases "getJob jid s")
  case None
  then show ?thesis using J by (simp add: updateJobStatus_def)
next
  case (Some i)
  then show ?thesis using joined_job_update [OF J, of "(queue s ! i)\<lparr>status := InMeeting\<rparr>" i]
    by (simp add: updateJobStatus_def)
qed

lemma joined_completeJob:
  assumes J: "recording_jobs_joined s"
  shows "recording_jobs_joined (completeJob jid None now s)"
proof (cases "getJob jid s")
  case None
  then show ?thesis using J by (simp add: completeJob_def)
next
  case (Some i)
  define s1 where "s1 = s\<lparr>queue := (queue s)[i := (queue s ! i)\<lparr>status := Completed, completedAt := Some now\<rparr>]\<rparr>"
  define s2 where "s2 = s1\<lparr>activeJobs := AList.delete jid (activeJobs s1)\<rparr>"
  have "recording_jobs_joined s1" unfolding s1_def by (rule joined_job_update [OF J]) simp
  then have "recording_jobs_joined s2" by (simp add: s2_def recording_jobs_joined_def)
  then have "recording_jobs_joined (processNext now s2)" by (rule joined_processNext)
  moreover have "completeJob jid None now s = processNext now s2"
    using Some by (simp add: completeJob_def Let_def s2_def s1_def)
  ultimately show ?thesis by simp
qed

lemma joined_driver_step:
  assumes inv: "server_inv s" and J: "recording_jobs_joined s" and k: "k < length (drivers s)"
  shows "recording_jobs_joined (driver_step k out now s)"
proof (cases "snd (drivers s ! k)")
  case (D_AcqRejected msg)
  then show ?thesis using joined_processJob_catch [OF inv J k] by (simp add: driver_step_def Let_def)
next
  case (D_AcqResolved ro)
  then show ?thesis using joined_processJob_catch [OF inv J k] joined_set_pc_other [OF J k]
    by (cases ro) (simp_all add: driver_step_def Let_def)
next
  case D_Creating
  show ?thesis
  proof (cases out)
    case (Resolve b)
    have J1: "recording_jobs_joined (snd (acquireSession_bind (driver_job s k) s))" using J by simp
    have k1: "k < length (drivers (snd (acquireSession_bind (driver_job s k) s)))"
      using k by (simp add: acquireSession_bind_def Let_def)
    have "recording_jobs_joined (set_pc k (D_AcqResolved (Some (fst (acquireSession_bind (driver_job s k) s))))
            (snd (acquireSession_bind (driver_job s k) s)))"
      by (rule joined_set_pc_other [OF J1 k1]) simp
    then show ?thesis using D_Creating Resolve
      by (simp add: driver_step_def Let_def driver_job_def split_beta)
  next
    case (Reject msg)
    then show ?thesis using D_Creating joined_set_pc_other [OF J k, of "D_AcqRejected msg"]
      by (simp add: driver_step_def Let_def)
  qed
next
  case (D_Joining r)
  then show ?thesis using joined_set_pc_other [OF J k, of "D_Saving r"] joined_inner_catch [OF J k]
    by (cases out) (simp_all add: driver_step_def Let_def)
next
  case (D_Saving r)
  show ?thesis
  proof (cases "saveSessionFromContext out")
    case None
    define s1 where "s1 = updateJobStatus (job_id (queue s ! fst (drivers s ! k))) InMeeting s"
    have J1: "recording_jobs_joined s1" unfolding s1_def by (rule joined_updateJobStatus [OF J])
    have k1: "k < length (drivers s1)" using k by (simp add: s1_def)
    have st: "status (queue s1 ! fst (drivers s1 ! k)) = InMeeting"
      using updateJobStatus_driver [OF inv k, of InMeeting] by (simp add: s1_def driver_job_def)
    have "recording_jobs_joined (set_pc k (if startRecording (queue s1 ! fst (drivers s ! k)) then D_Stabilizing r
                                else D_Done) s1)"
      by (rule joined_set_pc [OF J1 k1]) (simp add: st)
    then show ?thesis using D_Saving None
      by (simp add: driver_step_def Let_def s1_def del: saveSessionFromContext_def)
  next
    case (Some msg)
    then show ?thesis using D_Saving joined_inner_catch [OF J k]
      by (simp add: driver_step_def Let_def del: saveSessionFromContext_def)
  qed
next
  case (D_Stabilizing r)
  have "status (queue s ! fst (drivers s ! k)) = InMeeting \<or>
        status (queue s ! fst (drivers s ! k)) = Completed"
    using J k D_Stabilizing unfolding recording_jobs_joined_def by simp
  then show ?thesis using D_Stabilizing joined_set_pc [OF J k]
    by (simp add: driver_step_def Let_def)
next
  case (D_Recording r already)
  have "recording_jobs_joined (set_pc k D_Done (startRecording_finish r out s))"
    using J k by (intro joined_set_pc) simp_all
  then show ?thesis using D_Recording joined_set_pc_other [OF J k, of D_Done]
    by (simp add: driver_step_def Let_def)
next
  case (D_Throwing msg)
  then show ?thesis using joined_inner_catch [OF J k] by (simp add: driver_step_def Let_def)
next
  case (D_Cleanup msg)
  have "recording_jobs_joined (set_pc k (D_Released msg) (releaseSession_finish (driver_job s k) s))"
    using J k by (intro joined_set_pc) simp_all
  then show ?thesis using D_Cleanup by (simp add: driver_step_def Let_def driver_job_def)
next
  case (D_Released msg)
  then show ?thesis using joined_processJob_catch [OF inv J k] by (simp add: driver_step_def Let_def)
next
  case D_Done
  then show ?thesis using J by (simp add: driver_step_def Let_def)
next
  case D_Failed
  then show ?thesis using J by (simp add: driver_step_def Let_def)
qed

lemma joined_leave_step:
  assumes J: "recording_jobs_joined s"
  shows "recording_jobs_joined (leave_step k out now s)"
proof (cases "leaves s ! k")
  case (L_Released jid)
  then show ?thesis using joined_completeJob [OF J] by (simp add: leave_step_def)
qed (simp_all add: leave_step_def releaseSession_begin_def split_beta J
      split: option.splits await_result.splits)

lemma joined_step:
  assumes inv: "server_inv s" and J: "recording_jobs_joined s" and en: "enabled e s"
  shows "recording_jobs_joined (step e s)"
proof (cases e)
  case (AddJob url rec sched newId now)
  define s1 where "s1 = s\<lparr>queue := queue s @ [\<lparr>job_id = newId, meetingUrl = url, startRecording = rec,
                 scheduledTime = sched, status = Queued, error = None,
                 createdAt = now, startedAt = None, completedAt = None\<rparr>]\<rparr>"
  have "recording_jobs_joined s1"
    unfolding recording_jobs_joined_def
  proof (intro allI impI)
    fix n assume n: "n < length (drivers s1)" and r: "recording_pc (snd (drivers s1 ! n))"
    have nl: "n < length (drivers s)" using n by (simp add: s1_def)
    have "fst (drivers s ! n) < length (queue s)" by (rule server_inv_driver(1) [OF inv nl])
    then have "queue s1 ! fst (drivers s1 ! n) = queue s ! fst (drivers s ! n)"
      by (simp add: s1_def nth_append)
    then show "status (queue s1 ! fst (drivers s1 ! n)) = InMeeting \<or>
        status (queue s1 ! fst (drivers s1 ! n)) = Completed"
      using J nl r unfolding recording_jobs_joined_def by (simp add: s1_def)
  qed
  then have "recording_jobs_joined (processNext now s1)" by (rule joined_processNext)
  then show ?thesis using AddJob by (simp add: addJob_def Let_def s1_def)
next
  case (TimerFire h now)
  define s1 where "s1 = s\<lparr>timeouts := (timeouts s)[h := (timeouts s ! h)\<lparr>timer_state := Fired\<rparr>],
              scheduledTimers := AList.delete (timer_job (timeouts s ! h)) (scheduledTimers s)\<rparr>"
  have "recording_jobs_joined s1" using J by (simp add: s1_def recording_jobs_joined_def)
  then have "recording_jobs_joined (processNext now s1)" by (rule joined_processNext)
  then show ?thesis using TimerFire by (simp add: timerFired_def Let_def s1_def)
next
  case (DriverStep k out now)
  then show ?thesis using joined_driver_step [OF inv J] en by simp
next
  case (LeaveRequest jid)
  then show ?thesis using J by simp
next
  case (LeaveStep k out now)
  then show ?thesis using joined_leave_step [OF J] by simp
next
  case ClearTimers
  then show ?thesis using J by simp
qed

lemma joined_run:
  "server_inv s \<Longrightarrow> recording_jobs_joined s \<Longrightarrow> run es s = Some s' \<Longrightarrow> recording_jobs_joined s'"
proof (induction es arbitrary: s)
  case Nil
  then show ?case by simp
next
  case (Cons e es)
  have en: "enabled e s" and r: "run es (step e s) = Some s'"
    using Cons.prems(3) by (simp_all split: if_splits)
  show ?case
    by (rule Cons.IH [OF inv_step [OF Cons.prems(1) en] joined_step [OF Cons.prems(1,2) en] r])
qed

lemma joined_reachable: "run es (init n) = Some s \<Longrightarrow> recording_jobs_joined s"
  using joined_run [OF inv_init, of n es s] by (simp add: recording_jobs_joined_def init_def)

text \<open>
  Claim C8, as amended. In a run of the server, when \<open>saveSessionFromContext\<close> has
  completed after a successful join, the processor marks the job \<open>in-meeting\<close>; only then
  does it turn to the recording, if one is asked for. When the wait before the recording
  ends and the session is still active, the processor calls
  \<open>RecordingHandler.startRecording\<close>. When that reports \<open>false\<close>, which it does both
  when it finds no record option and when one of its steps throws, the job is not made
  \<open>failed\<close>: the job is \<open>in-meeting\<close>, or \<open>completed\<close> when a leave request has
  completed it during the call, and the processor only logs the failure. The step writes
  nothing to the queue, to \<open>activeJobs\<close>, to the pool or to the sessions, so no recording
  flag is set; the processor has finished. When the session is no longer active at the end
  of the wait, \<open>MeetingSession.startRecording\<close> does not report \<open>false\<close>: it throws at
  its guard. The claim is about the session that is still active.
\<close>

theorem recording_failure_only_logged:
  assumes "run es (init maxc) = Some s" and "k < length (drivers s)"
  shows "(snd (drivers s ! k) = D_Saving r \<and> saveSessionFromContext out = None \<longrightarrow>
            status (queue (driver_step k out now s) ! fst (drivers s ! k)) = InMeeting \<and>
            snd (drivers (driver_step k out now s) ! k) =
              (if startRecording (queue (driver_step k out now s) ! fst (drivers s ! k))
               then D_Stabilizing r else D_Done)) \<and>
         (snd (drivers s ! k) = D_Stabilizing r \<and> isActive (sessions s ! r) \<longrightarrow>
            queue (driver_step k out now s) = queue s \<and>
            snd (drivers (driver_step k out now s) ! k) = D_Recording r (isRecording (sessions s ! r))) \<and>
         (snd (drivers s ! k) = D_Recording r False \<and> \<not> startRecording_result out \<longrightarrow>
            (status (queue (driver_step k out now s) ! fst (drivers s ! k)) = InMeeting \<or>
             status (queue (driver_step k out now s) ! fst (drivers s ! k)) = Completed) \<and>
            queue (driver_step k out now s) = queue s \<and>
            activeJobs (driver_step k out now s) = activeJobs s \<and>
            activeSessions (driver_step k out now s) = activeSessions s \<and>
            sessions (driver_step k out now s) = sessions s \<and>
            snd (drivers (driver_step k out now s) ! k) = D_Done) \<and>
         (snd (drivers s ! k) = D_Stabilizing r \<and> \<not> isActive (sessions s ! r) \<longrightarrow>
            queue (driver_step k out now s) = queue s \<and>
            snd (drivers (driver_step k out now s) ! k) = D_Throwing ''Session is no longer active'') \<and>
         \<not> startRecording_result (Resolve False) \<and> \<not> startRecording_result (Reject msg)"
proof (intro conjI impI; (elim conjE)?)
  have inv: "server_inv s" using assms(1) by (rule inv_reachable)
  assume pc: "snd (drivers s ! k) = D_Saving r" and sv: "saveSessionFromContext out = None"
  define s1 where "s1 = updateJobStatus (driver_job s k) InMeeting s"
  have st1: "status (queue s1 ! fst (drivers s ! k)) = InMeeting"
    unfolding s1_def by (rule updateJobStatus_driver [OF inv assms(2)])
  have k1: "k < length (drivers s1)" using assms(2) by (simp add: s1_def)
  have eq: "driver_step k out now s =
      set_pc k (if startRecording (queue s1 ! fst (drivers s ! k)) then D_Stabilizing r else D_Done) s1"
    using pc sv by (simp add: driver_step_def Let_def s1_def driver_job_def del: saveSessionFromContext_def)
  show "status (queue (driver_step k out now s) ! fst (drivers s ! k)) = InMeeting"
    using st1 by (simp add: eq)
  show "snd (drivers (driver_step k out now s) ! k) =
      (if startRecording (queue (driver_step k out now s) ! fst (drivers s ! k))
       then D_Stabilizing r else D_Done)"
    unfolding eq using k1 by simp
next
  assume pc: "snd (drivers s ! k) = D_Stabilizing r" "isActive (sessions s ! r)"
  then have "driver_step k out now s = set_pc k (D_Recording r (isRecording (sessions s ! r))) s"
    by (simp add: driver_step_def Let_def)
  then show "queue (driver_step k out now s) = queue s"
    "snd (drivers (driver_step k out now s) ! k) = D_Recording r (isRecording (sessions s ! r))"
    using assms(2) by simp_all
next
  assume pc: "snd (drivers s ! k) = D_Recording r False" "\<not> startRecording_result out"
  then have eq: "driver_step k out now s = set_pc k D_Done s"
    by (simp add: driver_step_def Let_def startRecording_finish_def)
  have "recording_jobs_joined s" using assms(1) by (rule joined_reachable)
  then have "status (queue s ! fst (drivers s ! k)) = InMeeting \<or>
             status (queue s ! fst (drivers s ! k)) = Completed"
    using assms(2) pc(1) unfolding recording_jobs_joined_def by simp
  then show "status (queue (driver_step k out now s) ! fst (drivers s ! k)) = InMeeting \<or>
             status (queue (driver_step k out now s) ! fst (drivers s ! k)) = Completed"
    by (simp add: eq)
  show "queue (driver_step k out now s) = queue s"
    "activeJobs (driver_step k out now s) = activeJobs s"
    "activeSessions (driver_step k out now s) = activeSessions s"
    "sessions (driver_step k out now s) = sessions s"
    "snd (drivers (driver_step k out now s) ! k) = D_Done"
    using assms(2) by (simp_all add: eq)
next
  assume pc: "snd (drivers s ! k) = D_Stabilizing r" "\<not> isActive (sessions s ! r)"
  then have "driver_step k out now s = set_pc k (D_Throwing ''Session is no longer active'') s"
    by (simp add: driver_step_def Let_def)
  then show "queue (driver_step k out now s) = queue s"
    "snd (drivers (driver_step k out now s) ! k) = D_Throwing ''Session is no longer active''"
    using assms(2) by simp_all
next
  show "\<not> startRecording_result (Resolve False)" "\<not> startRecording_result (Reject msg)"
    by (simp_all add: startRecording_result_def)
qed

theorem recording_failure_only_logged_witness:
  "run (take 4 tr_leave_in_wait) (init 1) = Some saving_state \<and>
   snd (drivers saving_state ! 0) = D_Saving 0 \<and>
   saveSessionFromContext (Resolve True) = None \<and>
   status (queue saving_state ! 0) = Processing \<and>
   status (queue (driver_step 0 (Resolve True) 14 saving_state) ! 0) = InMeeting \<and>
   run (take 5 tr_leave_in_wait) (init 1) = Some joined_state \<and>
   snd (drivers joined_state ! 0) = D_Stabilizing 0 \<and>
   isActive (sessions joined_state ! 0) \<and>
   snd (drivers (driver_step 0 (Resolve True) 20 joined_state) ! 0) = D_Recording 0 False \<and>
   run (take 6 tr_leave_while_recording) (init 1) = Some recording_state \<and>
   snd (drivers recording_state ! 0) = D_Recording 0 False \<and>
   \<not> startRecording_result (Reject ''Timeout 30000ms exceeded'') \<and>
   status (queue (driver_step 0 (Reject ''Timeout 30000ms exceeded'') 30 recording_state) ! 0) = InMeeting \<and>
   queue (driver_step 0 (Reject ''Timeout 30000ms exceeded'') 30 recording_state) = queue recording_state \<and>
   sessions (driver_step 0 (Reject ''Timeout 30000ms exceeded'') 30 recording_state) = sessions recording_state \<and>
   isRecording (sessions recording_state ! 0) = False \<and>
   snd (drivers (driver_step 0 (Reject ''Timeout 30000ms exceeded'') 30 recording_state) ! 0) = D_Done \<and>
   run tr_leave_in_wait (init 1) = Some left_in_wait_state \<and>
   snd (drivers left_in_wait_state ! 0) = D_Stabilizing 0 \<and>
   \<not> isActive (sessions left_in_wait_state ! 0) \<and>
   snd (drivers (driver_step 0 (Resolve True) 18 left_in_wait_state) ! 0) =
     D_Throwing ''Session is no longer active''"
proof -
  have r4: "run tr_leave_in_wait (init 1) = Some left_in_wait_state" by code_simp
  have k4: "0 < length (drivers left_in_wait_state)" by code_simp
  have pc4: "snd (drivers left_in_wait_state ! 0) = D_Stabilizing 0" by code_simp
  have a4: "\<not> isActive (sessions left_in_wait_state ! 0)" by code_simp
  have c4: "snd (drivers (driver_step 0 (Resolve True) 18 left_in_wait_state) ! 0) =
     D_Throwing ''Session is no longer active''"
    using recording_failure_only_logged [OF r4 k4, of 0 "Resolve True" 18,
        THEN conjunct2, THEN conjunct2, THEN conjunct2, THEN conjunct1] pc4 a4
    by simp
  have r1: "run (take 4 tr_leave_in_wait) (init 1) = Some saving_state" by code_simp
  have k1: "0 < length (drivers saving_state)" by code_simp
  have f1: "fst (drivers saving_state ! 0) = 0" by code_simp
  have pc1: "snd (drivers saving_state ! 0) = D_Saving 0" by code_simp
  have sv: "saveSessionFromContext (Resolve True) = None" by simp
  have st1: "status (queue saving_state ! 0) = Processing" by code_simp
  have r2: "run (take 5 tr_leave_in_wait) (init 1) = Some joined_state" by code_simp
  have k2: "0 < length (drivers joined_state)" by code_simp
  have pc2: "snd (drivers joined_state ! 0) = D_Stabilizing 0" by code_simp
  have a2: "isActive (sessions joined_state ! 0)" by code_simp
  have f2: "isRecording (sessions joined_state ! 0) = False" by code_simp
  have r3: "run (take 6 tr_leave_while_recording) (init 1) = Some recording_state" by code_simp
  have k3: "0 < length (drivers recording_state)" by code_simp
  have f3: "fst (drivers recording_state ! 0) = 0" by code_simp
  have pc3: "snd (drivers recording_state ! 0) = D_Recording 0 False" by code_simp
  have st3: "status (queue recording_state ! 0) = InMeeting" by code_simp
  have fl: "isRecording (sessions recording_state ! 0) = False" by code_simp
  have nr: "\<not> startRecording_result (Reject ''Timeout 30000ms exceeded'')"
    by (simp add: startRecording_result_def)
  have c1: "status (queue (driver_step 0 (Resolve True) 14 saving_state) ! 0) = InMeeting"
    using recording_failure_only_logged [OF r1 k1, of 0 "Resolve True" 14, THEN conjunct1] pc1 f1
    by simp
  have c2: "snd (drivers (driver_step 0 (Resolve True) 20 joined_state) ! 0) = D_Recording 0 False"
    using recording_failure_only_logged [OF r2 k2, of 0 "Resolve True" 20,
        THEN conjunct2, THEN conjunct1] pc2 a2 f2
    by simp
  have c3: "queue (driver_step 0 (Reject ''Timeout 30000ms exceeded'') 30 recording_state) = queue recording_state \<and>
      sessions (driver_step 0 (Reject ''Timeout 30000ms exceeded'') 30 recording_state) = sessions recording_state \<and>
      snd (drivers (driver_step 0 (Reject ''Timeout 30000ms exceeded'') 30 recording_state) ! 0) = D_Done"
    using recording_failure_only_logged [OF r3 k3, of 0 "Reject ''Timeout 30000ms exceeded''" 30,
        THEN conjunct2, THEN conjunct2, THEN conjunct1] pc3 nr
    by simp
  show ?thesis
    using r1 pc1 sv st1 c1 r2 pc2 a2 c2 r3 pc3 nr c3 st3 fl r4 pc4 a4 c4 by simp
qed

text \<open>
  Claim C8 as stated fails in two runs. In \<open>tr_leave_in_wait\<close> the join has succeeded and
  the job is \<open>in-meeting\<close>; the client leaves during the wait, so the session is cleaned
  up; when the wait ends, \<open>MeetingSession.startRecording\<close> throws at its guard, the
  processor releases and throws again, and the job is marked \<open>failed\<close>. In
  \<open>tr_leave_while_recording\<close> the client leaves while \<open>RecordingHandler.startRecording\<close>
  is running; the call then reports \<open>false\<close>, which is only logged, and the status of the
  job is \<open>completed\<close>, not \<open>in-meeting\<close>.
\<close>

theorem recording_throw_fails_job:
  "run (take 5 tr_leave_in_wait) (init 1) = Some joined_state \<and>
   status (queue joined_state ! 0) = InMeeting \<and>
   snd (drivers joined_state ! 0) = D_Stabilizing 0 \<and>
   run tr_leave_in_wait (init 1) = Some left_in_wait_state \<and>
   snd (drivers (step (DriverStep 0 (Resolve True) 18) left_in_wait_state) ! 0) =
     D_Throwing ''Session is no longer active'' \<and>
   status (queue (step (DriverStep 0 (Resolve True) 20)
             (step (DriverStep 0 (Resolve True) 19)
               (step (DriverStep 0 (Resolve True) 18) left_in_wait_state))) ! 0) = Failed \<and>
   error (queue (step (DriverStep 0 (Resolve True) 20)
             (step (DriverStep 0 (Resolve True) 19)
               (step (DriverStep 0 (Resolve True) 18) left_in_wait_state))) ! 0) =
     Some ''Session is no longer active'' \<and>
   run tr_leave_while_recording (init 1) = Some left_while_recording \<and>
   snd (drivers left_while_recording ! 0) = D_Recording 0 False \<and>
   snd (drivers (step (DriverStep 0 (Resolve False) 24) left_while_recording) ! 0) = D_Done \<and>
   status (queue (step (DriverStep 0 (Resolve False) 24) left_while_recording) ! 0) = Completed"
  by code_simp

section \<open>Timers\<close>

lemma timers_ok_upd [simp]:
  "timers_ok (s\<lparr>queue := q\<rparr>) = timers_ok s"
  "timers_ok (s\<lparr>activeJobs := aj\<rparr>) = timers_ok s"
  "timers_ok (s\<lparr>activeSessions := as\<rparr>) = timers_ok s"
  "timers_ok (s\<lparr>sessions := ss\<rparr>) = timers_ok s"
  "timers_ok (s\<lparr>drivers := ds\<rparr>) = timers_ok s"
  "timers_ok (s\<lparr>leaves := ls\<rparr>) = timers_ok s"
  by (simp_all add: timers_ok_def)

lemma timers_ok_cong:
  "scheduledTimers s' = scheduledTimers s \<Longrightarrow> timeouts s' = timeouts s \<Longrightarrow>
   timers_ok s' = timers_ok s"
  by (simp add: timers_ok_def)

lemma timers_ok_add:
  assumes ok: "timers_ok s" and new: "map_of (scheduledTimers s) jid = None"
  shows "timers_ok (s\<lparr>timeouts := timeouts s @ [\<lparr>timer_job = jid, delay = d, timer_state = Pending\<rparr>],
                     scheduledTimers := AList.update jid (length (timeouts s)) (scheduledTimers s)\<rparr>)"
proof -
  define ts where "ts = timeouts s @ [\<lparr>timer_job = jid, delay = d, timer_state = Pending\<rparr>]"
  define reg where "reg = AList.update jid (length (timeouts s)) (scheduledTimers s)"
  have m: "map_of reg = (map_of (scheduledTimers s))(jid \<mapsto> length (timeouts s))"
    by (simp add: reg_def update_conv')
  have 1: "distinct (map fst reg)" using ok by (simp add: reg_def timers_ok_def distinct_update)
  have 2: "map_of reg (timer_job (ts ! h)) = Some h"
    if h: "h < length ts" and p: "timer_state (ts ! h) = Pending" for h
  proof (cases "h < length (timeouts s)")
    case True
    then have old: "map_of (scheduledTimers s) (timer_job (timeouts s ! h)) = Some h"
      using ok p by (simp add: timers_ok_def ts_def nth_append)
    then have "timer_job (timeouts s ! h) \<noteq> jid" using new by auto
    then show ?thesis using True old by (simp add: m ts_def nth_append)
  next
    case False
    then have "h = length (timeouts s)" using h by (simp add: ts_def)
    then show ?thesis by (simp add: m ts_def)
  qed
  have 3: "h < length ts \<and> timer_job (ts ! h) = j \<and> timer_state (ts ! h) = Pending"
    if mj: "map_of reg j = Some h" for j h
  proof (cases "j = jid")
    case True
    then have "h = length (timeouts s)" using mj by (simp add: m)
    then show ?thesis using True by (simp add: ts_def)
  next
    case False
    then have "map_of (scheduledTimers s) j = Some h" using mj by (simp add: m)
    then have "h < length (timeouts s) \<and> timer_job (timeouts s ! h) = j \<and>
          timer_state (timeouts s ! h) = Pending"
      using ok unfolding timers_ok_def by blast
    then show ?thesis by (simp add: ts_def nth_append)
  qed
  have "timers_ok (s\<lparr>timeouts := ts, scheduledTimers := reg\<rparr>)"
    unfolding timers_ok_def using 1 2 3 by simp
  then show ?thesis by (simp add: ts_def reg_def)
qed

lemma timers_ok_scheduleTimers:
  "timers_ok s \<Longrightarrow> timers_ok (scheduleTimers now xs s)"
proof (induction xs arbitrary: s)
  case Nil
  then show ?case by simp
next
  case (Cons x xs)
  show ?case
  proof (cases "map_of (scheduledTimers s) (job_id (queue s ! x)) = None")
    case True
    from timers_ok_add [OF Cons.prems True] Cons.IH show ?thesis using True
      by (simp add: Let_def)
  next
    case False
    then show ?thesis using Cons by (simp add: Let_def)
  qed
qed

lemma scheduleTimers_keeps:
  "h < length (timeouts s) \<Longrightarrow>
   h < length (timeouts (scheduleTimers now xs s)) \<and> timeouts (scheduleTimers now xs s) ! h = timeouts s ! h"
proof (induction xs arbitrary: s)
  case Nil
  then show ?case by simp
next
  case (Cons x xs)
  show ?case
  proof (cases "map_of (scheduledTimers s) (job_id (queue s ! x)) = None")
    case True
    let ?s1 = "s\<lparr>timeouts := timeouts s @
                      [\<lparr>timer_job = job_id (queue s ! x),
                        delay = (case scheduledTime (queue s ! x) of Some t \<Rightarrow> t - now | None \<Rightarrow> 0),
                        timer_state = Pending\<rparr>],
                    scheduledTimers :=
                      AList.update (job_id (queue s ! x)) (length (timeouts s)) (scheduledTimers s)\<rparr>"
    have "h < length (timeouts ?s1)" using Cons.prems by simp
    from Cons.IH [OF this] Cons.prems True show ?thesis by (simp add: Let_def nth_append)
  next
    case False
    then show ?thesis using Cons by (simp add: Let_def)
  qed
qed

lemma timers_ok_processNext: "timers_ok s \<Longrightarrow> timers_ok (processNext now s)"
proof -
  assume ok: "timers_ok s"
  have "timers_ok (dispatch now (readyJobs now s) s)"
    using ok timers_ok_cong [of "dispatch now (readyJobs now s) s" s] by simp
  then show ?thesis using ok
    by (simp add: processNext_def scheduleUpcomingJobs_def timers_ok_scheduleTimers)
qed

lemma processNext_keeps:
  "h < length (timeouts s) \<Longrightarrow>
   h < length (timeouts (processNext now s)) \<and> timeouts (processNext now s) ! h = timeouts s ! h"
  using scheduleTimers_keeps [of h "dispatch now (readyJobs now s) s" now]
  by (simp add: processNext_def scheduleUpcomingJobs_def)

lemma timers_ok_neutral [simp]:
  "timers_ok (set_pc k pc s) = timers_ok s"
  "timers_ok (set_leave n lpc s) = timers_ok s"
  "timers_ok (cleanup_begin r s) = timers_ok s"
  "timers_ok (releaseSession_finish jid s) = timers_ok s"
  "timers_ok (startRecording_finish r out s) = timers_ok s"
  "timers_ok (stopRecording_finish r out s) = timers_ok s"
  "timers_ok (updateJobStatus jid st s) = timers_ok s"
  "timers_ok (snd (acquireSession_bind jid s)) = timers_ok s"
  "timers_ok (leave_request jid s) = timers_ok s"
  "timers_ok (inner_catch k msg s) = timers_ok s"
  by (simp_all add: set_pc_def set_leave_def cleanup_begin_def releaseSession_finish_def
      startRecording_finish_def stopRecording_finish_def updateJobStatus_def
      acquireSession_bind_def leave_request_def inner_catch_def releaseSession_begin_def Let_def
      split: option.splits await_result.splits bool.splits)

lemma timers_ok_processJob_catch:
  "timers_ok s \<Longrightarrow> timers_ok (processJob_catch k msg now s)"
  by (simp add: processJob_catch_def Let_def timers_ok_processNext)

lemma timers_ok_completeJob:
  "timers_ok s \<Longrightarrow> timers_ok (completeJob jid err now s)"
  by (simp add: completeJob_def Let_def timers_ok_processNext split: option.splits)

lemma timers_ok_driver_step:
  "timers_ok s \<Longrightarrow> timers_ok (driver_step k out now s)"
  by (cases "snd (drivers s ! k)")
    (simp_all add: driver_step_def Let_def split_beta timers_ok_processJob_catch
      split: option.splits await_result.splits)

lemma timers_ok_leave_step:
  "timers_ok s \<Longrightarrow> timers_ok (leave_step k out now s)"
  by (cases "leaves s ! k")
    (simp_all add: leave_step_def Let_def split_beta releaseSession_begin_def timers_ok_completeJob
      split: option.splits await_result.splits)

lemma timers_ok_fired:
  assumes ok: "timers_ok s" and h: "h < length (timeouts s)" and p: "timer_state (timeouts s ! h) = Pending"
  shows "timers_ok (s\<lparr>timeouts := (timeouts s)[h := (timeouts s ! h)\<lparr>timer_state := Fired\<rparr>],
              scheduledTimers := AList.delete (timer_job (timeouts s ! h)) (scheduledTimers s)\<rparr>)"
proof -
  define jid where "jid = timer_job (timeouts s ! h)"
  define ts where "ts = (timeouts s)[h := (timeouts s ! h)\<lparr>timer_state := Fired\<rparr>]"
  define reg where "reg = AList.delete jid (scheduledTimers s)"
  have m: "map_of reg = (map_of (scheduledTimers s))(jid := None)"
    by (simp add: reg_def delete_conv')
  have reg_h: "map_of (scheduledTimers s) jid = Some h"
    using ok h p unfolding timers_ok_def jid_def by blast
  have 1: "distinct (map fst reg)" using ok by (simp add: reg_def timers_ok_def distinct_delete)
  have 2: "map_of reg (timer_job (ts ! h')) = Some h'"
    if h': "h' < length ts" and p': "timer_state (ts ! h') = Pending" for h'
  proof -
    have ne: "h' \<noteq> h" using p' h by (auto simp: ts_def)
    then have same: "ts ! h' = timeouts s ! h'" by (simp add: ts_def)
    have old: "map_of (scheduledTimers s) (timer_job (timeouts s ! h')) = Some h'"
      using ok h' p' same unfolding timers_ok_def by (simp add: ts_def)
    then have "timer_job (timeouts s ! h') \<noteq> jid" using reg_h ne by auto
    then show ?thesis using old by (simp add: m same)
  qed
  have 3: "h' < length ts \<and> timer_job (ts ! h') = j \<and> timer_state (ts ! h') = Pending"
    if mj: "map_of reg j = Some h'" for j h'
  proof -
    have j: "j \<noteq> jid" "map_of (scheduledTimers s) j = Some h'"
      using mj by (auto simp: m split: if_splits)
    then have o: "h' < length (timeouts s) \<and> timer_job (timeouts s ! h') = j \<and>
          timer_state (timeouts s ! h') = Pending"
      using ok unfolding timers_ok_def by blast
    then have "h' \<noteq> h" using j(1) by (auto simp: jid_def)
    then show ?thesis using o by (simp add: ts_def)
  qed
  have "timers_ok (s\<lparr>timeouts := ts, scheduledTimers := reg\<rparr>)"
    unfolding timers_ok_def using 1 2 3 by simp
  then show ?thesis by (simp add: ts_def reg_def jid_def)
qed

lemma clearTimeout_facts:
  "length (clearTimeout h ts) = length ts"
  "n < length ts \<Longrightarrow> timer_state (clearTimeout h ts ! n) = Pending \<Longrightarrow>
     n \<noteq> h \<and> timer_state (ts ! n) = Pending"
  by (auto simp: clearTimeout_def nth_list_update split: if_splits)

lemma fold_clearTimeout_length [simp]: "length (fold clearTimeout hs ts) = length ts"
  by (induction hs arbitrary: ts) (simp_all add: clearTimeout_facts(1))

lemma fold_clearTimeout_pending:
  "n < length ts \<Longrightarrow> timer_state (fold clearTimeout hs ts ! n) = Pending \<Longrightarrow>
   n \<notin> set hs \<and> timer_state (ts ! n) = Pending"
proof (induction hs arbitrary: ts)
  case Nil
  then show ?case by simp
next
  case (Cons a hs)
  have "n < length (clearTimeout a ts)" using Cons.prems(1) by (simp add: clearTimeout_facts(1))
  from Cons.IH [OF this] Cons.prems(2)
  have "n \<notin> set hs" "timer_state (clearTimeout a ts ! n) = Pending" by simp_all
  then show ?case using clearTimeout_facts(2) [OF Cons.prems(1), of a] by simp
qed

lemma clearTimers_none_pending:
  assumes ok: "timers_ok s" and n: "n < length (timeouts (clearTimers s))"
  shows "timer_state (timeouts (clearTimers s) ! n) \<noteq> Pending"
proof
  assume p: "timer_state (timeouts (clearTimers s) ! n) = Pending"
  have n': "n < length (timeouts s)" using n by (simp add: clearTimers_def)
  from fold_clearTimeout_pending [OF n', of "map snd (scheduledTimers s)"] p
  have a: "n \<notin> set (map snd (scheduledTimers s))" "timer_state (timeouts s ! n) = Pending"
    by (simp_all add: clearTimers_def)
  have "map_of (scheduledTimers s) (timer_job (timeouts s ! n)) = Some n"
    using ok n' a(2) unfolding timers_ok_def by blast
  then have "(timer_job (timeouts s ! n), n) \<in> set (scheduledTimers s)" by (rule map_of_SomeD)
  then have "n \<in> set (map snd (scheduledTimers s))" by force
  then show False using a(1) by simp
qed

lemma timers_ok_clearTimers:
  assumes ok: "timers_ok s" shows "timers_ok (clearTimers s)"
proof -
  have "\<And>h. h < length (timeouts (clearTimers s)) \<Longrightarrow>
      timer_state (timeouts (clearTimers s) ! h) \<noteq> Pending"
    by (rule clearTimers_none_pending [OF ok])
  moreover have "scheduledTimers (clearTimers s) = []" by (simp add: clearTimers_def)
  ultimately show ?thesis unfolding timers_ok_def by simp
qed

lemma timers_ok_step:
  assumes ok: "timers_ok s" and en: "enabled e s"
  shows "timers_ok (step e s)"
proof (cases e)
  case (AddJob url rec sched newId now)
  then show ?thesis using ok by (simp add: addJob_def Let_def timers_ok_processNext)
next
  case (TimerFire h now)
  then have "h < length (timeouts s)" "timer_state (timeouts s ! h) = Pending" using en by simp_all
  from timers_ok_fired [OF ok this] show ?thesis using TimerFire
    by (simp add: timerFired_def Let_def timers_ok_processNext)
next
  case (DriverStep k out now)
  then show ?thesis using ok by (simp add: timers_ok_driver_step)
next
  case (LeaveRequest jid)
  then show ?thesis using ok by simp
next
  case (LeaveStep k out now)
  then show ?thesis using ok by (simp add: timers_ok_leave_step)
next
  case ClearTimers
  then show ?thesis using ok by (simp add: timers_ok_clearTimers)
qed

lemma timers_ok_run: "timers_ok s \<Longrightarrow> run es s = Some s' \<Longrightarrow> timers_ok s'"
proof (induction es arbitrary: s)
  case Nil
  then show ?case by simp
next
  case (Cons e es)
  then show ?case by (auto split: if_splits intro: timers_ok_step)
qed

lemma timers_ok_init: "timers_ok (init n)"
  by (simp add: timers_ok_def init_def)

text \<open>
  Claim C9. In every state that a run of the server reaches, the registry
  \<open>scheduledTimers\<close> has one entry per job id, two pending timers never belong to the
  same job, and a timer is pending exactly when it is the registry entry of its job. A
  timer that fires is no longer pending and is not in the registry when its callback has
  run; after \<open>clearTimers\<close> the registry is empty and no timer is pending.
\<close>

theorem one_timer_per_job:
  assumes "run es (init maxc) = Some s"
  shows "distinct (map fst (scheduledTimers s)) \<and>
    (\<forall>h h'. h < length (timeouts s) \<and> h' < length (timeouts s) \<and>
        timer_state (timeouts s ! h) = Pending \<and> timer_state (timeouts s ! h') = Pending \<and>
        timer_job (timeouts s ! h) = timer_job (timeouts s ! h') \<longrightarrow> h = h') \<and>
    (\<forall>h. h < length (timeouts s) \<longrightarrow>
        (timer_state (timeouts s ! h) = Pending) =
        (map_of (scheduledTimers s) (timer_job (timeouts s ! h)) = Some h)) \<and>
    (\<forall>jobId h. map_of (scheduledTimers s) jobId = Some h \<longrightarrow>
        h < length (timeouts s) \<and> timer_job (timeouts s ! h) = jobId \<and>
        timer_state (timeouts s ! h) = Pending) \<and>
    (\<forall>h now. enabled (TimerFire h now) s \<longrightarrow>
        timer_state (timeouts (step (TimerFire h now) s) ! h) = Fired \<and>
        h \<notin> snd ` set (scheduledTimers (step (TimerFire h now) s))) \<and>
    scheduledTimers (clearTimers s) = [] \<and>
    (\<forall>h. h < length (timeouts (clearTimers s)) \<longrightarrow>
        timer_state (timeouts (clearTimers s) ! h) \<noteq> Pending)"
proof -
  have ok: "timers_ok s" using timers_ok_run [OF timers_ok_init assms] .
  have d: "distinct (map fst (scheduledTimers s))" using ok by (simp add: timers_ok_def)
  have p2r: "map_of (scheduledTimers s) (timer_job (timeouts s ! h)) = Some h"
    if "h < length (timeouts s)" "timer_state (timeouts s ! h) = Pending" for h
    using ok that unfolding timers_ok_def by blast
  have r2p: "h < length (timeouts s) \<and> timer_job (timeouts s ! h) = j \<and>
        timer_state (timeouts s ! h) = Pending"
    if "map_of (scheduledTimers s) j = Some h" for j h
    using ok that unfolding timers_ok_def by blast
  have one: "h = h'"
    if "h < length (timeouts s) \<and> h' < length (timeouts s) \<and>
        timer_state (timeouts s ! h) = Pending \<and> timer_state (timeouts s ! h') = Pending \<and>
        timer_job (timeouts s ! h) = timer_job (timeouts s ! h')" for h h'
  proof -
    have a: "map_of (scheduledTimers s) (timer_job (timeouts s ! h)) = Some h"
      using that by (intro p2r) simp_all
    have b: "map_of (scheduledTimers s) (timer_job (timeouts s ! h')) = Some h'"
      using that by (intro p2r) simp_all
    have "timer_job (timeouts s ! h) = timer_job (timeouts s ! h')" using that by simp
    then have "Some h = Some h'" using a b by (simp only:)
    then show ?thesis by simp
  qed
  have iff: "(timer_state (timeouts s ! h) = Pending) =
        (map_of (scheduledTimers s) (timer_job (timeouts s ! h)) = Some h)"
    if "h < length (timeouts s)" for h
  proof
    assume "timer_state (timeouts s ! h) = Pending"
    then show "map_of (scheduledTimers s) (timer_job (timeouts s ! h)) = Some h"
      by (rule p2r [OF that])
  next
    assume "map_of (scheduledTimers s) (timer_job (timeouts s ! h)) = Some h"
    from r2p [OF this] show "timer_state (timeouts s ! h) = Pending" by simp
  qed
  have fired: "timer_state (timeouts (step (TimerFire h now) s) ! h) = Fired \<and>
        h \<notin> snd ` set (scheduledTimers (step (TimerFire h now) s))"
    if en: "enabled (TimerFire h now) s" for h now
  proof -
    define s1 where "s1 = s\<lparr>timeouts := (timeouts s)[h := (timeouts s ! h)\<lparr>timer_state := Fired\<rparr>],
              scheduledTimers := AList.delete (timer_job (timeouts s ! h)) (scheduledTimers s)\<rparr>"
    have h: "h < length (timeouts s)" using en by simp
    have st: "step (TimerFire h now) s = processNext now s1"
      by (simp add: timerFired_def Let_def s1_def)
    have h1: "h < length (timeouts s1)" using h by (simp add: s1_def)
    have f1: "timer_state (timeouts s1 ! h) = Fired" using h by (simp add: s1_def)
    have f: "timer_state (timeouts (step (TimerFire h now) s) ! h) = Fired"
      unfolding st using processNext_keeps [OF h1, of now] f1 by simp
    have ok': "timers_ok (step (TimerFire h now) s)" by (rule timers_ok_step [OF ok en])
    have "h \<notin> snd ` set (scheduledTimers (step (TimerFire h now) s))"
    proof
      assume "h \<in> snd ` set (scheduledTimers (step (TimerFire h now) s))"
      then obtain j where "(j, h) \<in> set (scheduledTimers (step (TimerFire h now) s))"
        by (auto simp: image_iff)
      then have "map_of (scheduledTimers (step (TimerFire h now) s)) j = Some h"
        using ok' by (simp add: timers_ok_def)
      then have "timer_state (timeouts (step (TimerFire h now) s) ! h) = Pending"
        using ok' unfolding timers_ok_def by blast
      then show False using f by simp
    qed
    then show ?thesis using f by simp
  qed
  have c1: "scheduledTimers (clearTimers s) = []" by (simp add: clearTimers_def)
  have c2: "timer_state (timeouts (clearTimers s) ! h) \<noteq> Pending"
    if "h < length (timeouts (clearTimers s))" for h
    using clearTimers_none_pending [OF ok that] .
  show ?thesis
  proof (intro conjI allI impI)
    show "distinct (map fst (scheduledTimers s))" by (rule d)
    show "scheduledTimers (clearTimers s) = []" by (rule c1)
  next
    fix h h'
    assume "h < length (timeouts s) \<and> h' < length (timeouts s) \<and>
        timer_state (timeouts s ! h) = Pending \<and> timer_state (timeouts s ! h') = Pending \<and>
        timer_job (timeouts s ! h) = timer_job (timeouts s ! h')"
    then show "h = h'" by (rule one)
  next
    fix h assume "h < length (timeouts s)"
    then show "(timer_state (timeouts s ! h) = Pending) =
        (map_of (scheduledTimers s) (timer_job (timeouts s ! h)) = Some h)" by (rule iff)
  next
    fix jobId h assume m: "map_of (scheduledTimers s) jobId = Some h"
    show "h < length (timeouts s)" "timer_job (timeouts s ! h) = jobId"
      "timer_state (timeouts s ! h) = Pending"
      using r2p [OF m] by simp_all
  next
    fix h now assume en: "enabled (TimerFire h now) s"
    show "timer_state (timeouts (step (TimerFire h now) s) ! h) = Fired"
      "h \<notin> snd ` set (scheduledTimers (step (TimerFire h now) s))"
      using fired [OF en] by simp_all
  next
    fix h assume "h < length (timeouts (clearTimers s))"
    then show "timer_state (timeouts (clearTimers s) ! h) \<noteq> Pending" by (rule c2)
  qed
qed

theorem one_timer_per_job_witness:
  "run tr_timers (init 1) = Some timers_state \<and>
   scheduledTimers timers_state = [(''a'', 0), (''b'', 1)] \<and>
   map timer_job (timeouts timers_state) = [''a'', ''b''] \<and>
   distinct (map fst (scheduledTimers timers_state)) \<and>
   timer_state (timeouts (step (TimerFire 0 100) timers_state) ! 0) = Fired \<and>
   0 \<notin> snd ` set (scheduledTimers (step (TimerFire 0 100) timers_state)) \<and>
   scheduledTimers (clearTimers timers_state) = []"
proof -
  have r: "run tr_timers (init 1) = Some timers_state" by code_simp
  have reg: "scheduledTimers timers_state = [(''a'', 0), (''b'', 1)]" by code_simp
  have ts: "map timer_job (timeouts timers_state) = [''a'', ''b'']" by code_simp
  have en: "enabled (TimerFire 0 100) timers_state" by code_simp
  note t = one_timer_per_job [OF r]
  have 1: "distinct (map fst (scheduledTimers timers_state))"
    using t by (rule conjunct1)
  have "\<forall>h now. enabled (TimerFire h now) timers_state \<longrightarrow>
        timer_state (timeouts (step (TimerFire h now) timers_state) ! h) = Fired \<and>
        h \<notin> snd ` set (scheduledTimers (step (TimerFire h now) timers_state))"
    using t by (elim conjE)
  then have 2: "timer_state (timeouts (step (TimerFire 0 100) timers_state) ! 0) = Fired \<and>
     0 \<notin> snd ` set (scheduledTimers (step (TimerFire 0 100) timers_state))"
    using en by (elim allE [of _ 0] allE [of _ 100] impE) assumption+
  have 3: "scheduledTimers (clearTimers timers_state) = []" by (simp add: clearTimers_def)
  show ?thesis using r reg ts 1 2 3 by (intro conjI) simp_all
qed

end
